theory Spec2Isabelle
  imports Complex_Main "HOL-Library.Multiset"
begin

section \<open>The array operations used by \<^verbatim>\<open>example2_mpi.py\<close>\<close>

text \<open>
  The script distributes the contact points of an extracellular electrode over the MPI
  ranks with the extended slice \<^verbatim>\<open>a[RANK::SIZE]\<close> and glues the partial results together
  on rank 0 with \<^verbatim>\<open>np.r_\<close>. Arrays are lists; a two-dimensional array is a list of rows.
\<close>

datatype py_error = ValueError | AttributeError | TypeError | DegenerateGeometryError

text \<open>
  \<^verbatim>\<open>a[start::step]\<close> for a start and a step that are not negative. A zero step raises
  \<^verbatim>\<open>ValueError: slice step cannot be zero\<close>. Otherwise the slice has
  \<open>(n - start - 1) div step + 1\<close> items when \<open>start < n\<close> and none when not, and item
  \<open>k\<close> is \<open>a[start + k * step]\<close>.
\<close>

definition slice_length :: "nat \<Rightarrow> nat \<Rightarrow> nat \<Rightarrow> nat" where
  "slice_length n start step = (if start < n then (n - start - 1) div step + 1 else 0)"

definition strided :: "'a list \<Rightarrow> nat \<Rightarrow> nat \<Rightarrow> 'a list" where
  "strided a start step =
     map (\<lambda>k. a ! (start + k * step)) [0..<slice_length (length a) start step]"

definition slice_from :: "'a list \<Rightarrow> nat \<Rightarrow> nat \<Rightarrow> py_error + 'a list" where
  "slice_from a start step = (if step = 0 then Inl ValueError else Inr (strided a start step))"

text \<open>\<^verbatim>\<open>A.flatten()\<close> of a two-dimensional array, in row-major order.\<close>

definition flatten :: "'a list list \<Rightarrow> 'a list" where
  "flatten A = concat A"

text \<open>\<^verbatim>\<open>np.r_[a, b]\<close>: concatenation along the first axis.\<close>

definition np_r :: "'a list \<Rightarrow> 'a list \<Rightarrow> 'a list" where
  "np_r a b = a @ b"

text \<open>
  The evaluation-point indices that rank \<open>r\<close> of \<open>W\<close> takes out of \<open>N\<close> points: the
  slice \<^verbatim>\<open>[r::W]\<close> of \<^verbatim>\<open>range(N)\<close>.
\<close>

definition partition_indices :: "nat \<Rightarrow> nat \<Rightarrow> nat \<Rightarrow> py_error + nat list" where
  "partition_indices N r W = slice_from [0..<N] r W"

text \<open>
  The partition in the words of the specification: round-robin striding, worker \<open>r\<close> of
  \<open>W\<close> gets every index \<open>i\<close> below \<open>N\<close> with \<open>i mod W = r\<close>, in increasing order.
\<close>

definition round_robin :: "nat \<Rightarrow> nat \<Rightarrow> nat \<Rightarrow> nat list" where
  "round_robin N W r = filter (\<lambda>i. i mod W = r) [0..<N]"

text \<open>
  \<^verbatim>\<open>np.mgrid[a:b, c:d]\<close>: two arrays of shape \<open>(b - a) \<times> (d - c)\<close>; entry \<open>(i, j)\<close> of the
  first is \<open>a + i\<close> and of the second \<open>c + j\<close>. \<^verbatim>\<open>A * k\<close> scales every entry and
  \<^verbatim>\<open>np.zeros(A.shape)\<close> is an array of the shape of \<open>A\<close> filled with zeros.
\<close>

definition mgrid :: "int \<Rightarrow> int \<Rightarrow> int \<Rightarrow> int \<Rightarrow> int list list \<times> int list list" where
  "mgrid a b c d =
     (map (\<lambda>i. map (\<lambda>j. i) [c..d - 1]) [a..b - 1],
      map (\<lambda>i. map (\<lambda>j. j) [c..d - 1]) [a..b - 1])"

definition times_array :: "int list list \<Rightarrow> int \<Rightarrow> int list list" where
  "times_array A k = map (map (\<lambda>v. v * k)) A"

definition zeros_like :: "int list list \<Rightarrow> int list list" where
  "zeros_like A = map (map (\<lambda>v. 0)) A"

section \<open>The electrode and the computation of one rank (lines 76 to 110)\<close>

text \<open>
  The dictionary \<^verbatim>\<open>electrodeParameters\<close>: the conductivity, the contact coordinates of
  this rank and the name of the source model.
\<close>

record 'a parameters =
  p_sigma :: real
  p_x :: "'a list"
  p_y :: "'a list"
  p_z :: "'a list"
  p_method :: string

definition electrodeParameters ::
  "nat \<Rightarrow> nat \<Rightarrow> 'a list list \<Rightarrow> 'a list list \<Rightarrow> 'a list list \<Rightarrow> py_error + 'a parameters" where
  "electrodeParameters RANK SIZE X Y Z =
     (case slice_from (flatten X) RANK SIZE of
        Inl e \<Rightarrow> Inl e
      | Inr xs \<Rightarrow>
          (case slice_from (flatten Y) RANK SIZE of
             Inl e \<Rightarrow> Inl e
           | Inr ys \<Rightarrow>
               (case slice_from (flatten Z) RANK SIZE of
                  Inl e \<Rightarrow> Inl e
                | Inr zs \<Rightarrow>
                    Inr \<lparr>p_sigma = 3 / 10, p_x = xs, p_y = ys, p_z = zs,
                         p_method = ''som_as_point''\<rparr>)))"

text \<open>
  The electrode object as the script uses it: the three coordinate arrays and, once the
  simulation has run, the matrix \<^verbatim>\<open>LFP\<close> with one row (a potential trace) per contact.
\<close>

record ('a, 'v) electrode =
  el_x :: "'a list"
  el_y :: "'a list"
  el_z :: "'a list"
  el_LFP :: "'v list"

definition RecExtElectrode :: "'a parameters \<Rightarrow> ('a, 'v) electrode" where
  "RecExtElectrode p = \<lparr>el_x = p_x p, el_y = p_y p, el_z = p_z p, el_LFP = []\<rparr>"

text \<open>The contact points of an electrode, and its rows: every contact with its trace.\<close>

definition contacts :: "('a, 'v) electrode \<Rightarrow> ('a \<times> 'a \<times> 'a) list" where
  "contacts el = zip (el_x el) (zip (el_y el) (el_z el))"

definition rows :: "('a, 'v) electrode \<Rightarrow> ('a \<times> 'a \<times> 'a \<times> 'v) list" where
  "rows el = zip (el_x el) (zip (el_y el) (zip (el_z el) (el_LFP el)))"

definition aligned :: "('a, 'v) electrode \<Rightarrow> bool" where
  "aligned el \<longleftrightarrow>
     length (el_y el) = length (el_x el) \<and> length (el_z el) = length (el_x el) \<and>
     length (el_LFP el) = length (el_x el)"

text \<open>
  \<^verbatim>\<open>cell.simulate(electrode = electrode)\<close> fills \<^verbatim>\<open>electrode.LFP\<close>. The forward model
  lives in the LFPy package; here it is a parameter \<open>solve\<close> that maps the contact
  points to their potential traces or fails.
\<close>

type_synonym ('a, 'v) solver = "('a \<times> 'a \<times> 'a) list \<Rightarrow> py_error + 'v list"

definition simulate :: "('a, 'v) solver \<Rightarrow> ('a, 'v) electrode \<Rightarrow> py_error + ('a, 'v) electrode" where
  "simulate solve el =
     (case solve (contacts el) of Inl e \<Rightarrow> Inl e | Inr traces \<Rightarrow> Inr (el\<lparr>el_LFP := traces\<rparr>))"

text \<open>
  A message is the list \<^verbatim>\<open>[electrode.x, electrode.y, electrode.z, electrode.LFP]\<close>. The
  variables of one rank that the gather touches are \<^verbatim>\<open>electrode\<close>, \<^verbatim>\<open>results\<close> and
  \<^verbatim>\<open>result\<close> (\<open>None\<close> while unbound or set to \<^verbatim>\<open>None\<close>); \<open>cell\<close> stands for the cell
  object and the other variables of the script.
\<close>

type_synonym ('a, 'v) msg = "'a list \<times> 'a list \<times> 'a list \<times> 'v list"

datatype pc = Collecting nat | Sending | AtBarrier | PastBarrier | Done

record ('a, 'v, 'c) rank_state =
  electrode :: "('a, 'v) electrode option"
  results :: "('a, 'v) msg list option"
  result :: "('a, 'v) msg option"
  cell :: 'c
  pc :: pc

text \<open>
  Lines 76 to 110 on one rank: slice the grid, create the electrode, simulate, and bind
  \<^verbatim>\<open>results = []\<close>. An exception of the slice or of the simulation ends the script
  there. Rank 0 goes on to the receive loop \<^verbatim>\<open>for i in xrange(1, SIZE)\<close>, the others
  to the send.
\<close>

definition compute_phase ::
  "('a, 'v) solver \<Rightarrow> 'c \<Rightarrow> nat \<Rightarrow> nat \<Rightarrow> 'a list list \<Rightarrow> 'a list list \<Rightarrow> 'a list list \<Rightarrow>
     py_error + ('a, 'v, 'c) rank_state" where
  "compute_phase solve c RANK SIZE X Y Z =
     (case electrodeParameters RANK SIZE X Y Z of
        Inl e \<Rightarrow> Inl e
      | Inr p \<Rightarrow>
          (case simulate solve (RecExtElectrode p) of
             Inl e \<Rightarrow> Inl e
           | Inr el \<Rightarrow>
               Inr \<lparr>electrode = Some el, results = Some [], result = None, cell = c,
                    pc = (if RANK = 0 then Collecting 1 else Sending)\<rparr>))"

section \<open>The gather on one rank (lines 112 to 131)\<close>

definition message_of :: "('a, 'v) electrode \<Rightarrow> ('a, 'v) msg" where
  "message_of el = (el_x el, el_y el, el_z el, el_LFP el)"

text \<open>
  The branch of the other ranks, lines 117 to 120: build the message from the electrode
  (an \<^verbatim>\<open>AttributeError\<close> when \<^verbatim>\<open>electrode\<close> is \<^verbatim>\<open>None\<close>), send it, and set \<^verbatim>\<open>results\<close>
  and \<^verbatim>\<open>electrode\<close> to \<^verbatim>\<open>None\<close>. The function returns the message handed to
  \<^verbatim>\<open>COMM.send\<close> and the state in which the rank stands at the barrier.
\<close>

definition send_branch ::
  "('a, 'v, 'c) rank_state \<Rightarrow> py_error + ('a, 'v) msg \<times> ('a, 'v, 'c) rank_state" where
  "send_branch s =
     (case electrode s of
        None \<Rightarrow> Inl AttributeError
      | Some el \<Rightarrow>
          Inr (message_of el,
               s\<lparr>result := Some (message_of el), results := None, electrode := None,
                 pc := AtBarrier\<rparr>))"

text \<open>
  The body of the receive loop of rank 0, lines 114 and 115, in pass \<open>i\<close> and for the
  message \<open>m\<close> that \<^verbatim>\<open>COMM.recv\<close> returned; \<^verbatim>\<open>results.append\<close> needs a list.
\<close>

definition recv_body ::
  "('a, 'v) msg \<Rightarrow> nat \<Rightarrow> ('a, 'v, 'c) rank_state \<Rightarrow> py_error + ('a, 'v, 'c) rank_state" where
  "recv_body m i s =
     (case results s of
        None \<Rightarrow> Inl AttributeError
      | Some rs \<Rightarrow> Inr (s\<lparr>result := Some m, results := Some (rs @ [m]), pc := Collecting (Suc i)\<rparr>))"

text \<open>The end of the receive loop, and the return from \<^verbatim>\<open>COMM.Barrier()\<close>.\<close>

definition end_collect :: "('a, 'v, 'c) rank_state \<Rightarrow> ('a, 'v, 'c) rank_state" where
  "end_collect s = s\<lparr>pc := AtBarrier\<rparr>"

definition pass_barrier :: "('a, 'v, 'c) rank_state \<Rightarrow> ('a, 'v, 'c) rank_state" where
  "pass_barrier s = s\<lparr>pc := PastBarrier\<rparr>"

text \<open>
  The merge loop of rank 0, lines 127 to 131: each pass binds \<^verbatim>\<open>result\<close> and appends its
  four arrays to the four arrays of the electrode with \<^verbatim>\<open>np.r_\<close>.
\<close>

fun merge_one :: "('a, 'v) electrode \<Rightarrow> ('a, 'v) msg \<Rightarrow> ('a, 'v) electrode" where
  "merge_one el (mx, my, mz, mlfp) =
     el\<lparr>el_x := np_r (el_x el) mx, el_y := np_r (el_y el) my,
        el_z := np_r (el_z el) mz, el_LFP := np_r (el_LFP el) mlfp\<rparr>"

fun merge_loop ::
  "('a, 'v, 'c) rank_state \<Rightarrow> ('a, 'v) msg list \<Rightarrow> py_error + ('a, 'v, 'c) rank_state" where
  "merge_loop s [] = Inr s"
| "merge_loop s (m # ms) =
     (case electrode s of
        None \<Rightarrow> Inl AttributeError
      | Some el \<Rightarrow> merge_loop (s\<lparr>result := Some m, electrode := Some (merge_one el m)\<rparr>) ms)"

definition merge_branch :: "('a, 'v, 'c) rank_state \<Rightarrow> py_error + ('a, 'v, 'c) rank_state" where
  "merge_branch s =
     (case results s of
        None \<Rightarrow> Inl TypeError
      | Some rs \<Rightarrow>
          (case merge_loop s rs of Inl e \<Rightarrow> Inl e | Inr s' \<Rightarrow> Inr (s'\<lparr>pc := Done\<rparr>)))"

text \<open>The last branch of the other ranks, \<^verbatim>\<open>else: pass\<close>.\<close>

definition exit_branch :: "('a, 'v, 'c) rank_state \<Rightarrow> ('a, 'v, 'c) rank_state" where
  "exit_branch s = s\<lparr>pc := Done\<rparr>"

text \<open>
  What a script does: it returns a state, it ends with an exception, or it blocks for
  ever in a receive.
\<close>

datatype 'a outcome = Returns 'a | Raises py_error | Blocks

text \<open>
  Rank 0 alone, lines 112 to 131, given the messages in the order in which
  \<^verbatim>\<open>COMM.recv(source=MPI.ANY_SOURCE)\<close> delivers them and given that the other ranks reach
  the barrier: the receive loop runs over \<^verbatim>\<open>xrange(1, SIZE)\<close> and takes one message per
  pass, then come the barrier and the merge loop.
\<close>

fun collect_loop ::
  "nat list \<Rightarrow> ('a, 'v) msg list \<Rightarrow> ('a, 'v, 'c) rank_state \<Rightarrow> ('a, 'v, 'c) rank_state outcome" where
  "collect_loop [] arrivals s = Returns (end_collect s)"
| "collect_loop (i # is) [] s = Blocks"
| "collect_loop (i # is) (m # arrivals) s =
     (case recv_body m i s of
        Inl e \<Rightarrow> Raises e
      | Inr s' \<Rightarrow> collect_loop is arrivals s')"

definition root_script ::
  "nat \<Rightarrow> ('a, 'v) msg list \<Rightarrow> ('a, 'v, 'c) rank_state \<Rightarrow> ('a, 'v, 'c) rank_state outcome" where
  "root_script SIZE arrivals s =
     (case collect_loop [1..<SIZE] arrivals s of
        Returns s' \<Rightarrow>
          (case merge_branch (pass_barrier s') of Inl e \<Rightarrow> Raises e | Inr s'' \<Rightarrow> Returns s'')
      | Raises e \<Rightarrow> Raises e
      | Blocks \<Rightarrow> Blocks)"

text \<open>
  Another rank alone, from line 76 to the barrier: the messages it has handed to
  \<^verbatim>\<open>COMM.send\<close>, and the state it reaches or the exception that ended it.
\<close>

definition other_script ::
  "('a, 'v) solver \<Rightarrow> 'c \<Rightarrow> nat \<Rightarrow> nat \<Rightarrow> 'a list list \<Rightarrow> 'a list list \<Rightarrow> 'a list list \<Rightarrow>
     ('a, 'v) msg list \<times> (py_error + ('a, 'v, 'c) rank_state)" where
  "other_script solve c RANK SIZE X Y Z =
     (case compute_phase solve c RANK SIZE X Y Z of
        Inl e \<Rightarrow> ([], Inl e)
      | Inr s \<Rightarrow>
          (case send_branch s of
             Inl e \<Rightarrow> ([], Inl e)
           | Inr (m, s') \<Rightarrow> ([m], Inr s')))"

text \<open>
  The reference of the serial script \<^verbatim>\<open>example2.py\<close>, in the words of the specification:
  one solver run, not distributed, over the full ordered point set.
\<close>

definition serial_electrode ::
  "('a, 'v) solver \<Rightarrow> 'a list list \<Rightarrow> 'a list list \<Rightarrow> 'a list list \<Rightarrow> py_error + ('a, 'v) electrode" where
  "serial_electrode solve X Y Z =
     simulate solve
       (RecExtElectrode \<lparr>p_sigma = 3 / 10, p_x = flatten X, p_y = flatten Y, p_z = flatten Z,
                         p_method = ''som_as_point''\<rparr>)"

text \<open>
  The outcome on rank 0 of the whole script when the messages of the ranks in \<open>order\<close>
  arrive in that order: every rank computes, the others send, rank 0 collects and
  merges. A rank that raised has sent nothing.
\<close>

definition gather_script ::
  "('a, 'v) solver \<Rightarrow> (nat \<Rightarrow> 'c) \<Rightarrow> nat \<Rightarrow> 'a list list \<Rightarrow> 'a list list \<Rightarrow> 'a list list \<Rightarrow>
     nat list \<Rightarrow> ('a, 'v, 'c) rank_state outcome" where
  "gather_script solve c SIZE X Y Z order =
     (case compute_phase solve (c 0) 0 SIZE X Y Z of
        Inl e \<Rightarrow> Raises e
      | Inr s \<Rightarrow>
          root_script SIZE
            (concat (map (\<lambda>r. fst (other_script solve (c r) r SIZE X Y Z)) order)) s)"

text \<open>The contact points and the rows of a message, and what it means that they align.\<close>

fun msg_contacts :: "('a, 'v) msg \<Rightarrow> ('a \<times> 'a \<times> 'a) list" where
  "msg_contacts (mx, my, mz, mlfp) = zip mx (zip my mz)"

fun msg_rows :: "('a, 'v) msg \<Rightarrow> ('a \<times> 'a \<times> 'a \<times> 'v) list" where
  "msg_rows (mx, my, mz, mlfp) = zip mx (zip my (zip mz mlfp))"

fun msg_aligned :: "('a, 'v) msg \<Rightarrow> bool" where
  "msg_aligned (mx, my, mz, mlfp) \<longleftrightarrow>
     length my = length mx \<and> length mz = length mx \<and> length mlfp = length mx"

text \<open>
  The ordered list of all evaluation points of the grid, and the electrode of rank
  \<^verbatim>\<open>RANK\<close> once its simulation has returned the traces \<open>traces\<close>.
\<close>

definition grid_points :: "'a list list \<Rightarrow> 'a list list \<Rightarrow> 'a list list \<Rightarrow> ('a \<times> 'a \<times> 'a) list" where
  "grid_points X Y Z = zip (flatten X) (zip (flatten Y) (flatten Z))"

definition local_electrode ::
  "nat \<Rightarrow> nat \<Rightarrow> 'a list list \<Rightarrow> 'a list list \<Rightarrow> 'a list list \<Rightarrow> 'v list \<Rightarrow> ('a, 'v) electrode" where
  "local_electrode RANK SIZE X Y Z traces =
     \<lparr>el_x = strided (flatten X) RANK SIZE, el_y = strided (flatten Y) RANK SIZE,
      el_z = strided (flatten Z) RANK SIZE, el_LFP = traces\<rparr>"

text \<open>
  The grid of the script, lines 76 and 77: \<^verbatim>\<open>X, Z = np.mgrid[-5:6, -5:6] * 10\<close> and
  \<^verbatim>\<open>Y = np.zeros(X.shape)\<close>, eleven by eleven points in the plane \<open>y = 0\<close>.
\<close>

definition X_grid :: "int list list" where
  "X_grid = times_array (fst (mgrid (- 5) 6 (- 5) 6)) 10"

definition Z_grid :: "int list list" where
  "Z_grid = times_array (snd (mgrid (- 5) 6 (- 5) 6)) 10"

definition Y_grid :: "int list list" where
  "Y_grid = zeros_like X_grid"

section \<open>The ranks together: sends, receives and the barrier\<close>

text \<open>
  The state of the whole run is the list of the rank states and the messages that are
  on their way to rank 0, each with the rank that sent it (the envelope of MPI; the
  payload does not carry it). \<^verbatim>\<open>COMM.send(result, dest=0)\<close> puts a message on its way,
  \<^verbatim>\<open>COMM.recv(source=MPI.ANY_SOURCE)\<close> takes any of them, and \<^verbatim>\<open>COMM.Barrier()\<close> lets the
  ranks go on together once every one of them stands at it. A rank whose next statement
  raises takes no further step.
\<close>

record ('a, 'v, 'c) world =
  ranks :: "('a, 'v, 'c) rank_state list"
  channel :: "(nat \<times> ('a, 'v) msg) multiset"

datatype ('a, 'v) event =
    Send nat "('a, 'v) msg"
  | Recv nat "('a, 'v) msg"
  | EndCollect
  | Barrier
  | Merge
  | Exit nat

inductive gather_step ::
  "nat \<Rightarrow> ('a, 'v, 'c) world \<Rightarrow> ('a, 'v) event \<Rightarrow> ('a, 'v, 'c) world \<Rightarrow> bool"
  for SIZE :: nat where
  send:
    "\<lbrakk>0 < r; r < length (ranks w); pc (ranks w ! r) = Sending;
      send_branch (ranks w ! r) = Inr (m, s')\<rbrakk>
     \<Longrightarrow> gather_step SIZE w (Send r m)
           (w\<lparr>ranks := (ranks w)[r := s'], channel := add_mset (r, m) (channel w)\<rparr>)"
| recv:
    "\<lbrakk>0 < length (ranks w); pc (ranks w ! 0) = Collecting i; i < SIZE;
      (src, m) \<in># channel w; recv_body m i (ranks w ! 0) = Inr s'\<rbrakk>
     \<Longrightarrow> gather_step SIZE w (Recv src m)
           (w\<lparr>ranks := (ranks w)[0 := s'], channel := channel w - {#(src, m)#}\<rparr>)"
| end_collect:
    "\<lbrakk>0 < length (ranks w); pc (ranks w ! 0) = Collecting i; \<not> i < SIZE\<rbrakk>
     \<Longrightarrow> gather_step SIZE w EndCollect (w\<lparr>ranks := (ranks w)[0 := end_collect (ranks w ! 0)]\<rparr>)"
| barrier:
    "\<lbrakk>list_all (\<lambda>s. pc s = AtBarrier) (ranks w)\<rbrakk>
     \<Longrightarrow> gather_step SIZE w Barrier (w\<lparr>ranks := map pass_barrier (ranks w)\<rparr>)"
| merge:
    "\<lbrakk>0 < length (ranks w); pc (ranks w ! 0) = PastBarrier;
      merge_branch (ranks w ! 0) = Inr s'\<rbrakk>
     \<Longrightarrow> gather_step SIZE w Merge (w\<lparr>ranks := (ranks w)[0 := s']\<rparr>)"
| exit:
    "\<lbrakk>0 < r; r < length (ranks w); pc (ranks w ! r) = PastBarrier\<rbrakk>
     \<Longrightarrow> gather_step SIZE w (Exit r) (w\<lparr>ranks := (ranks w)[r := exit_branch (ranks w ! r)]\<rparr>)"

text \<open>A run is a sequence of steps; it records the events in their order.\<close>

inductive gather_run ::
  "nat \<Rightarrow> ('a, 'v, 'c) world \<Rightarrow> ('a, 'v) event list \<Rightarrow> ('a, 'v, 'c) world \<Rightarrow> bool"
  for SIZE :: nat and w0 :: "('a, 'v, 'c) world" where
  run_nil: "gather_run SIZE w0 [] w0"
| run_snoc:
    "\<lbrakk>gather_run SIZE w0 evs w; gather_step SIZE w ev w'\<rbrakk> \<Longrightarrow> gather_run SIZE w0 (evs @ [ev]) w'"

text \<open>
  The gather starts when every rank has computed: rank \<open>r\<close> holds its electrode \<open>E r\<close> and
  the empty list \<^verbatim>\<open>results\<close>; rank 0 stands at its receive loop, the others at the send.
\<close>

definition after_compute ::
  "(nat \<Rightarrow> ('a, 'v) electrode) \<Rightarrow> (nat \<Rightarrow> 'c) \<Rightarrow> nat \<Rightarrow> ('a, 'v, 'c) rank_state" where
  "after_compute E c r =
     \<lparr>electrode = Some (E r), results = Some [], result = None, cell = c r,
      pc = (if r = 0 then Collecting 1 else Sending)\<rparr>"

definition gather_init ::
  "nat \<Rightarrow> (nat \<Rightarrow> ('a, 'v) electrode) \<Rightarrow> (nat \<Rightarrow> 'c) \<Rightarrow> ('a, 'v, 'c) world" where
  "gather_init SIZE E c = \<lparr>ranks = map (after_compute E c) [0..<SIZE], channel = {#}\<rparr>"

definition all_done :: "('a, 'v, 'c) world \<Rightarrow> bool" where
  "all_done w = list_all (\<lambda>s. pc s = Done) (ranks w)"

text \<open>The messages sent and the messages received in a trace, each in their order.\<close>

fun sends :: "('a, 'v) event list \<Rightarrow> (nat \<times> ('a, 'v) msg) list" where
  "sends [] = []"
| "sends (Send r m # evs) = (r, m) # sends evs"
| "sends (ev # evs) = sends evs"

fun recvs :: "('a, 'v) event list \<Rightarrow> (nat \<times> ('a, 'v) msg) list" where
  "recvs [] = []"
| "recvs (Recv r m # evs) = (r, m) # recvs evs"
| "recvs (ev # evs) = recvs evs"

text \<open>
  The state of a rank is determined by where it stands: another rank \<open>r\<close> is as the
  computation left it until it has sent, and afterwards holds its message in \<^verbatim>\<open>result\<close>
  and \<^verbatim>\<open>None\<close> in \<^verbatim>\<open>results\<close> and \<^verbatim>\<open>electrode\<close>; rank 0 holds the received messages
  \<open>ms\<close> and, once it has merged, the merged electrode. Events before the barrier are
  sends, receives and the end of the receive loop; after it come the merge and the exits.
  The invariant \<open>gather_inv\<close> ties the state of the run to its trace.
\<close>

definition other_state ::
  "(nat \<Rightarrow> ('a, 'v) electrode) \<Rightarrow> (nat \<Rightarrow> 'c) \<Rightarrow> nat \<Rightarrow> pc \<Rightarrow> ('a, 'v, 'c) rank_state" where
  "other_state E c r p =
     (if p = Sending then after_compute E c r
      else (after_compute E c r)\<lparr>result := Some (message_of (E r)), results := None,
             electrode := None, pc := p\<rparr>)"

definition root_state ::
  "(nat \<Rightarrow> ('a, 'v) electrode) \<Rightarrow> (nat \<Rightarrow> 'c) \<Rightarrow> ('a, 'v) msg list \<Rightarrow> pc \<Rightarrow> ('a, 'v, 'c) rank_state" where
  "root_state E c ms p =
     (after_compute E c 0)\<lparr>result := (if ms = [] then None else Some (last ms)),
        results := Some ms,
        electrode := Some (if p = Done then foldl merge_one (E 0) ms else E 0), pc := p\<rparr>"

fun before_barrier :: "('a, 'v) event \<Rightarrow> bool" where
  "before_barrier (Send r m) = True"
| "before_barrier (Recv r m) = True"
| "before_barrier EndCollect = True"
| "before_barrier ev = False"

fun after_barrier :: "('a, 'v) event \<Rightarrow> bool" where
  "after_barrier Merge = True"
| "after_barrier (Exit r) = True"
| "after_barrier ev = False"

definition past :: "pc \<Rightarrow> bool" where
  "past p \<longleftrightarrow> p = PastBarrier \<or> p = Done"

definition gather_inv ::
  "nat \<Rightarrow> (nat \<Rightarrow> ('a, 'v) electrode) \<Rightarrow> (nat \<Rightarrow> 'c) \<Rightarrow> ('a, 'v) event list \<Rightarrow>
     ('a, 'v, 'c) world \<Rightarrow> bool" where
  "gather_inv SIZE E c evs w \<longleftrightarrow>
     0 < SIZE \<and> length (ranks w) = SIZE
   \<and> (\<forall>r. 0 < r \<and> r < SIZE \<longrightarrow>
         ranks w ! r = other_state E c r (pc (ranks w ! r)) \<and>
         (\<forall>i. pc (ranks w ! r) \<noteq> Collecting i))
   \<and> ranks w ! 0 = root_state E c (map snd (recvs evs)) (pc (ranks w ! 0))
   \<and> pc (ranks w ! 0) \<noteq> Sending
   \<and> (\<forall>i. pc (ranks w ! 0) = Collecting i \<longrightarrow> i = Suc (length (recvs evs)) \<and> i \<le> SIZE)
   \<and> ((\<forall>i. pc (ranks w ! 0) \<noteq> Collecting i) \<longrightarrow> Suc (length (recvs evs)) = SIZE)
   \<and> distinct (map fst (sends evs))
   \<and> set (sends evs) = {(r, message_of (E r)) | r. 0 < r \<and> r < SIZE \<and> pc (ranks w ! r) \<noteq> Sending}
   \<and> channel w + mset (recvs evs) = mset (sends evs)
   \<and> (Barrier \<in> set evs \<longrightarrow> (\<forall>r<SIZE. past (pc (ranks w ! r))))
   \<and> (Barrier \<notin> set evs \<longrightarrow> (\<forall>r<SIZE. \<not> past (pc (ranks w ! r))))
   \<and> ((Barrier \<notin> set evs \<and> list_all before_barrier evs) \<or>
       (\<exists>pre post. evs = pre @ Barrier # post \<and> list_all before_barrier pre \<and>
          list_all after_barrier post))"

section \<open>Properties of the strided slice\<close>

lemma slice_length_bound:
  assumes "0 < step" "k < slice_length n start step"
  shows "start + k * step < n"
proof -
  from assms(2) have sn: "start < n" and k: "k \<le> (n - start - 1) div step"
    by (auto simp: slice_length_def split: if_splits)
  from k have "k * step \<le> (n - start - 1) div step * step"
    by (rule mult_le_mono1)
  also have "\<dots> \<le> n - start - 1"
    by simp
  finally show ?thesis using sn by linarith
qed

lemma slice_length_complete:
  assumes "0 < step" "start + k * step < n"
  shows "k < slice_length n start step"
proof -
  from assms(2) have sn: "start < n" by linarith
  from assms(2) have "k * step \<le> n - start - 1" by linarith
  then have "k * step div step \<le> (n - start - 1) div step"
    by (rule div_le_mono)
  with assms(1) have "k \<le> (n - start - 1) div step" by simp
  with sn show ?thesis by (simp add: slice_length_def)
qed

lemma length_strided [simp]: "length (strided a start step) = slice_length (length a) start step"
  by (simp add: strided_def)

lemma strided_map_nth:
  assumes "0 < step"
  shows "strided a start step = map (\<lambda>i. a ! i) (strided [0..<length a] start step)"
proof -
  have "\<And>k. k < slice_length (length a) start step \<Longrightarrow>
          [0..<length a] ! (start + k * step) = start + k * step"
    using slice_length_bound [OF assms] by simp
  then show ?thesis
    by (simp add: strided_def)
qed

lemma strided_upt_sorted: "0 < step \<Longrightarrow> sorted_wrt (<) (strided [0..<N] start step)"
proof -
  assume st: "0 < step"
  have nth: "\<And>k. k < slice_length N start step \<Longrightarrow>
          strided [0..<N] start step ! k = start + k * step"
    using slice_length_bound [OF st] by (simp add: strided_def)
  show ?thesis
    unfolding sorted_wrt_iff_nth_less
  proof (intro allI impI)
    fix i j assume ij: "i < j" "j < length (strided [0..<N] start step)"
    then have "i < slice_length N start step" "j < slice_length N start step" by simp_all
    then show "strided [0..<N] start step ! i < strided [0..<N] start step ! j"
      using ij(1) st by (simp add: nth)
  qed
qed

lemma set_strided_upt:
  assumes "0 < W" "r < W"
  shows "set (strided [0..<N] r W) = {i. i < N \<and> i mod W = r}"
proof (intro set_eqI iffI)
  fix i assume "i \<in> set (strided [0..<N] r W)"
  then obtain k where k: "k < slice_length N r W" and i: "i = [0..<N] ! (r + k * W)"
    by (auto simp: strided_def)
  from slice_length_bound [OF assms(1) k] have b: "r + k * W < N" .
  with i have "i = r + k * W" by simp
  with b assms(2) show "i \<in> {i. i < N \<and> i mod W = r}" by simp
next
  fix i assume "i \<in> {i. i < N \<and> i mod W = r}"
  then have iN: "i < N" and im: "i mod W = r" by simp_all
  have eq: "r + (i div W) * W = i"
    using im by (metis add.commute div_mult_mod_eq)
  with iN have "i div W < slice_length N r W"
    using slice_length_complete [OF assms(1), of r "i div W" N] by simp
  moreover have "[0..<N] ! (r + (i div W) * W) = i"
    using eq iN by simp
  ultimately show "i \<in> set (strided [0..<N] r W)"
    by (force simp: strided_def)
qed

lemma strided_upt_filter:
  assumes "0 < W" "r < W"
  shows "strided [0..<N] r W = filter (\<lambda>i. i mod W = r) [0..<N]"
proof (rule sorted_distinct_set_unique)
  show "sorted (strided [0..<N] r W)"
    using strided_upt_sorted [OF assms(1)] by (rule strict_sorted_imp_sorted)
  show "distinct (strided [0..<N] r W)"
    using strided_upt_sorted [OF assms(1)] by (simp add: strict_sorted_iff)
  show "sorted (filter (\<lambda>i. i mod W = r) [0..<N])" by (simp add: sorted_wrt_filter)
  show "distinct (filter (\<lambda>i. i mod W = r) [0..<N])" by simp
  show "set (strided [0..<N] r W) = set (filter (\<lambda>i. i mod W = r) [0..<N])"
    using set_strided_upt [OF assms] by auto
qed

section \<open>Counting the entries of the slices\<close>

lemma count_sum_list_mset: "count (sum_list (map g xs)) a = sum_list (map (\<lambda>x. count (g x) a) xs)"
  by (induction xs) simp_all

lemma sum_list_filter_mset_classes:
  assumes "\<forall>i \<in># M. f i < W"
  shows "(\<Sum>r\<leftarrow>[0..<W]. filter_mset (\<lambda>i. f i = r) M) = M"
proof (rule multiset_eqI)
  fix a
  have "count (\<Sum>r\<leftarrow>[0..<W]. filter_mset (\<lambda>i. f i = r) M) a
        = (\<Sum>r\<leftarrow>[0..<W]. if f a = r then count M a else 0)"
    by (simp add: count_sum_list_mset)
  also have "\<dots> = (\<Sum>r\<in>{0..<W}. if f a = r then count M a else 0)"
    by (simp add: interv_sum_list_conv_sum_set_nat)
  also have "\<dots> = count M a"
  proof (cases "a \<in># M")
    case True
    with assms have "f a \<in> {0..<W}" by simp
    then show ?thesis by simp
  next
    case False
    then show ?thesis by (simp add: not_in_iff)
  qed
  finally show "count (\<Sum>r\<leftarrow>[0..<W]. filter_mset (\<lambda>i. f i = r) M) a = count M a" .
qed

lemma mset_concat_sum_list: "mset (concat (map g rs)) = (\<Sum>r\<leftarrow>rs. mset (g r))"
  by (induction rs) simp_all

lemma sum_list_mset_cong: "mset rs = mset rs' \<Longrightarrow> (\<Sum>r\<leftarrow>rs. (h r :: 'b multiset)) = (\<Sum>r\<leftarrow>rs'. h r)"
proof -
  assume "mset rs = mset rs'"
  then have "sum_mset (image_mset h (mset rs)) = sum_mset (image_mset h (mset rs'))" by simp
  then show ?thesis by (simp add: sum_mset_sum_list flip: mset_map)
qed

lemma image_mset_sum_list: "image_mset f (\<Sum>r\<leftarrow>rs. g r) = (\<Sum>r\<leftarrow>rs. image_mset f (g r))"
  by (induction rs) simp_all

lemma mset_strided_all:
  assumes "0 < W" "mset rs = mset [0..<W]"
  shows "mset (concat (map (\<lambda>r. strided a r W) rs)) = mset a"
proof -
  let ?N = "length a"
  have "mset (concat (map (\<lambda>r. strided a r W) rs)) = (\<Sum>r\<leftarrow>rs. mset (strided a r W))"
    by (rule mset_concat_sum_list)
  also have "\<dots> = (\<Sum>r\<leftarrow>[0..<W]. mset (strided a r W))"
    by (rule sum_list_mset_cong [OF assms(2)])
  also have "\<dots> = (\<Sum>r\<leftarrow>[0..<W]. image_mset (\<lambda>i. a ! i) (filter_mset (\<lambda>i. i mod W = r) (mset [0..<?N])))"
  proof (rule arg_cong [where f = sum_list], rule map_cong [OF refl])
    fix r assume "r \<in> set [0..<W]"
    then have r: "r < W" by simp
    have "strided a r W = map (\<lambda>i. a ! i) (filter (\<lambda>i. i mod W = r) [0..<?N])"
      using strided_map_nth [OF assms(1), of a r] strided_upt_filter [OF assms(1) r, of ?N] by simp
    then show "mset (strided a r W) = image_mset (\<lambda>i. a ! i) (filter_mset (\<lambda>i. i mod W = r) (mset [0..<?N]))"
      by simp
  qed
  also have "\<dots> = image_mset (\<lambda>i. a ! i) (\<Sum>r\<leftarrow>[0..<W]. filter_mset (\<lambda>i. i mod W = r) (mset [0..<?N]))"
    by (simp only: image_mset_sum_list)
  also have "\<dots> = image_mset (\<lambda>i. a ! i) (mset [0..<?N])"
    using assms(1) by (subst sum_list_filter_mset_classes) simp_all
  also have "\<dots> = mset (map (\<lambda>i. a ! i) [0..<?N])"
    by (simp only: mset_map)
  also have "\<dots> = mset a"
    by (simp only: map_nth)
  finally show ?thesis .
qed

section \<open>The partition of the evaluation points\<close>

text \<open>
  Claim C1. For every number of points \<open>N\<close> and every number of workers \<open>W \<ge> 1\<close>, the
  slice \<^verbatim>\<open>[r::W]\<close> gives worker \<open>r\<close> exactly the indices \<open>i\<close> with \<open>i mod W = r\<close>; the
  partitions of two different workers are disjoint, their union is \<open>{0, ..., N - 1}\<close> and
  together they hold every index exactly once; a worker \<open>r \<ge> N\<close> gets the empty
  partition, which is a value and not an error; and slicing any array of length \<open>N\<close>
  picks the entries at these indices.
\<close>

theorem partition_round_robin:
  assumes "1 \<le> W"
  shows "(\<forall>r<W. partition_indices N r W = Inr (round_robin N W r))
       \<and> (\<forall>r<W. \<forall>r'<W. r \<noteq> r' \<longrightarrow> set (round_robin N W r) \<inter> set (round_robin N W r') = {})
       \<and> (\<Union>r\<in>{0..<W}. set (round_robin N W r)) = {0..<N}
       \<and> mset (concat (map (round_robin N W) [0..<W])) = mset [0..<N]
       \<and> (N < W \<longrightarrow> (\<forall>r<W. N \<le> r \<longrightarrow> partition_indices N r W = Inr []))
       \<and> (\<forall>a. length a = N \<longrightarrow>
            (\<forall>r<W. slice_from a r W = Inr (map (\<lambda>i. a ! i) (round_robin N W r))))"
proof -
  from assms have W: "0 < W" by simp
  have part: "partition_indices N r W = Inr (round_robin N W r)" if "r < W" for r
    using W that strided_upt_filter [OF W that, of N]
    by (simp add: partition_indices_def slice_from_def round_robin_def)
  have disj: "set (round_robin N W r) \<inter> set (round_robin N W r') = {}" if "r \<noteq> r'" for r r'
    using that by (auto simp: round_robin_def)
  have un: "(\<Union>r\<in>{0..<W}. set (round_robin N W r)) = {0..<N}"
    using W by (auto simp: round_robin_def)
  have rr: "round_robin N W r = strided [0..<N] r W" if "r < W" for r
    using strided_upt_filter [OF W that, of N] by (simp add: round_robin_def)
  have meq: "map (round_robin N W) [0..<W] = map (\<lambda>r. strided [0..<N] r W) [0..<W]"
    by (rule map_cong [OF refl]) (simp add: rr)
  have once: "mset (concat (map (round_robin N W) [0..<W])) = mset [0..<N]"
    unfolding meq by (rule mset_strided_all [OF W refl])
  have empty: "partition_indices N r W = Inr []" if "r < W" "N \<le> r" for r
    using that W by (simp add: part round_robin_def filter_empty_conv)
  have sl: "slice_from a r W = Inr (map (\<lambda>i. a ! i) (round_robin N W r))"
    if "length a = N" "r < W" for a :: "'a list" and r
    using W that strided_map_nth [OF W, of a r] by (simp add: slice_from_def rr)
  show ?thesis
    using part disj un once empty sl by blast
qed

theorem partition_round_robin_witness:
  "partition_indices 5 0 2 = Inr [0, 2, 4] \<and> partition_indices 5 1 2 = Inr [1, 3]
   \<and> partition_indices 1 1 2 = Inr []
   \<and> slice_from ''abcde'' 1 2 = Inr ''bd''"
proof -
  have rr: "round_robin 5 2 0 = [0, 2, 4]" "round_robin 5 2 (Suc 0) = [1, 3]"
    "round_robin (Suc 0) 2 (Suc 0) = []"
    by (simp_all add: round_robin_def upt_rec)
  have W: "(1::nat) \<le> 2" by simp
  note t5 = partition_round_robin [OF W, of 5] and t1 = partition_round_robin [OF W, of 1]
  from t5 have p: "\<forall>r<2. partition_indices 5 r 2 = Inr (round_robin 5 2 r)" by (rule conjunct1)
  from t1 have q: "\<forall>r<2. partition_indices 1 r 2 = Inr (round_robin 1 2 r)" by (rule conjunct1)
  from t5 have "\<forall>a::string. length a = 5 \<longrightarrow>
      (\<forall>r<2. slice_from a r 2 = Inr (map (\<lambda>i. a ! i) (round_robin 5 2 r)))" by blast
  then have "slice_from ''abcde'' 1 2 = Inr (map (\<lambda>i. ''abcde'' ! i) (round_robin 5 2 1))" by simp
  then have s: "slice_from ''abcde'' 1 2 = Inr ''bd''" by (simp add: rr)
  from p have "partition_indices 5 0 2 = Inr [0, 2, 4]" "partition_indices 5 1 2 = Inr [1, 3]"
    by (simp_all add: rr)
  moreover from q have "partition_indices 1 1 2 = Inr []" by (simp add: rr)
  ultimately show ?thesis using s by simp
qed

section \<open>The merge loop and the receive loop of rank 0\<close>

lemma merge_one_fields:
  "el_x (merge_one el m) = el_x el @ fst m"
  "el_y (merge_one el m) = el_y el @ fst (snd m)"
  "el_z (merge_one el m) = el_z el @ fst (snd (snd m))"
  "el_LFP (merge_one el m) = el_LFP el @ snd (snd (snd m))"
  by (cases m; simp add: np_r_def)+

lemma merge_one_aligned: "aligned el \<Longrightarrow> msg_aligned m \<Longrightarrow> aligned (merge_one el m)"
  by (cases m) (simp add: aligned_def np_r_def)

lemma merge_one_rows: "aligned el \<Longrightarrow> rows (merge_one el m) = rows el @ msg_rows m"
  by (cases m) (simp add: aligned_def rows_def np_r_def)

lemma merge_one_contacts:
  "length (el_y el) = length (el_x el) \<Longrightarrow> length (el_z el) = length (el_x el) \<Longrightarrow>
   contacts (merge_one el m) = contacts el @ msg_contacts m"
  by (cases m) (simp add: contacts_def np_r_def)

lemma foldl_merge_aligned:
  "aligned el \<Longrightarrow> list_all msg_aligned ms \<Longrightarrow> aligned (foldl merge_one el ms)"
  by (induction ms arbitrary: el) (simp_all add: merge_one_aligned)

lemma foldl_merge_rows:
  "aligned el \<Longrightarrow> list_all msg_aligned ms \<Longrightarrow>
   rows (foldl merge_one el ms) = rows el @ concat (map msg_rows ms)"
  by (induction ms arbitrary: el) (simp_all add: merge_one_aligned merge_one_rows)

lemma foldl_merge_contacts:
  "length (el_y el) = length (el_x el) \<Longrightarrow> length (el_z el) = length (el_x el) \<Longrightarrow>
   list_all (\<lambda>m. length (fst (snd m)) = length (fst m) \<and>
                  length (fst (snd (snd m))) = length (fst m)) ms \<Longrightarrow>
   contacts (foldl merge_one el ms) = contacts el @ concat (map msg_contacts ms)"
proof (induction ms arbitrary: el)
  case Nil
  then show ?case by simp
next
  case (Cons m ms)
  from Cons.prems have c: "contacts (merge_one el m) = contacts el @ msg_contacts m"
    by (intro merge_one_contacts)
  from Cons.prems have "contacts (foldl merge_one (merge_one el m) ms) =
      contacts (merge_one el m) @ concat (map msg_contacts ms)"
    by (intro Cons.IH) (simp_all add: merge_one_fields)
  with c show ?case by simp
qed

lemma merge_loop_Some:
  "electrode s = Some el \<Longrightarrow>
   merge_loop s ms =
     Inr (s\<lparr>result := (if ms = [] then result s else Some (last ms)),
            electrode := Some (foldl merge_one el ms)\<rparr>)"
proof (induction ms arbitrary: s el)
  case Nil
  then show ?case by simp
next
  case (Cons m ms)
  show ?case
    using Cons.prems
    by (simp add: Cons.IH [where el = "merge_one el m"])
qed

lemma merge_branch_Some:
  "electrode s = Some el \<Longrightarrow> results s = Some ms \<Longrightarrow>
   merge_branch s =
     Inr (s\<lparr>result := (if ms = [] then result s else Some (last ms)),
            electrode := Some (foldl merge_one el ms), pc := Done\<rparr>)"
  by (simp add: merge_branch_def merge_loop_Some)

lemma collect_loop_enough:
  "results s = Some rs \<Longrightarrow> length is \<le> length arrivals \<Longrightarrow>
   collect_loop is arrivals s =
     Returns (s\<lparr>result := (if is = [] then result s else Some (arrivals ! (length is - 1))),
                results := Some (rs @ take (length is) arrivals), pc := AtBarrier\<rparr>)"
proof (induction "is" arrivals s arbitrary: rs rule: collect_loop.induct)
  case (1 arrivals s)
  then show ?case by (simp add: end_collect_def)
next
  case (2 i "is" s)
  then show ?case by simp
next
  case (3 i "is" m arrivals s)
  let ?s' = "s\<lparr>result := Some m, results := Some (rs @ [m]), pc := Collecting (Suc i)\<rparr>"
  have rb: "recv_body m i s = Inr ?s'"
    using "3.prems"(1) by (simp add: recv_body_def)
  have "collect_loop is arrivals ?s' =
     Returns (?s'\<lparr>result := (if is = [] then result ?s' else Some (arrivals ! (length is - 1))),
                results := Some ((rs @ [m]) @ take (length is) arrivals), pc := AtBarrier\<rparr>)"
    using "3.prems"(2) by (intro "3.IH" [OF rb]) simp_all
  then show ?case
    using rb by (cases "is") simp_all
qed

lemma collect_loop_short:
  "length arrivals < length is \<Longrightarrow> results s = Some rs \<Longrightarrow> collect_loop is arrivals s = Blocks"
proof (induction "is" arrivals s arbitrary: rs rule: collect_loop.induct)
  case (3 i "is" m arrivals s)
  let ?s' = "s\<lparr>result := Some m, results := Some (rs @ [m]), pc := Collecting (Suc i)\<rparr>"
  have rb: "recv_body m i s = Inr ?s'"
    using "3.prems"(2) by (simp add: recv_body_def)
  show ?case using "3.prems" "3.IH" [OF rb, of "rs @ [m]"] rb by simp
qed simp_all

lemma root_script_complete:
  assumes "electrode s = Some el" "results s = Some []" "SIZE - 1 \<le> length arrivals"
  shows "root_script SIZE arrivals s =
     Returns (s\<lparr>result := (if SIZE \<le> 1 then result s else Some (arrivals ! (SIZE - 2))),
                results := Some (take (SIZE - 1) arrivals),
                electrode := Some (foldl merge_one el (take (SIZE - 1) arrivals)),
                pc := Done\<rparr>)"
proof -
  let ?ms = "take (SIZE - 1) arrivals"
  let ?s1 = "s\<lparr>result := (if [1..<SIZE] = [] then result s else Some (arrivals ! (length [1..<SIZE] - 1))),
                results := Some ([] @ take (length [1..<SIZE]) arrivals), pc := AtBarrier\<rparr>"
  have c: "collect_loop [1..<SIZE] arrivals s = Returns ?s1"
    using assms by (intro collect_loop_enough) simp_all
  have m: "merge_branch (pass_barrier ?s1) =
      Inr ((pass_barrier ?s1)\<lparr>result := (if ?ms = [] then result (pass_barrier ?s1) else Some (last ?ms)),
            electrode := Some (foldl merge_one el ?ms), pc := Done\<rparr>)"
    using assms by (intro merge_branch_Some) (simp_all add: pass_barrier_def)
  have l: "last ?ms = arrivals ! (SIZE - 2)" if "1 < SIZE"
  proof -
    from that assms(3) have "?ms \<noteq> []" by auto
    then have "last ?ms = ?ms ! (length ?ms - 1)" by (rule last_conv_nth)
    also have "\<dots> = arrivals ! (SIZE - 2)"
      using that assms(3) by (simp add: min_def numeral_2_eq_2)
    finally show ?thesis .
  qed
  show ?thesis
    unfolding root_script_def c
    using m l assms(3) by (auto simp: pass_barrier_def)
qed

section \<open>The computation of one rank\<close>

lemma strided_zip:
  assumes "0 < W" "length b = length a"
  shows "strided (zip a b) r W = zip (strided a r W) (strided b r W)"
proof (rule nth_equalityI)
  show "length (strided (zip a b) r W) = length (zip (strided a r W) (strided b r W))"
    using assms(2) by simp
next
  fix k assume "k < length (strided (zip a b) r W)"
  then have k: "k < slice_length (length a) r W" using assms(2) by simp
  from slice_length_bound [OF assms(1) k] have "r + k * W < length a" .
  with k assms(2) show "strided (zip a b) r W ! k = zip (strided a r W) (strided b r W) ! k"
    by (simp add: strided_def)
qed

lemma electrodeParameters_ok:
  "0 < SIZE \<Longrightarrow>
   electrodeParameters RANK SIZE X Y Z =
     Inr \<lparr>p_sigma = 3 / 10, p_x = strided (flatten X) RANK SIZE,
          p_y = strided (flatten Y) RANK SIZE, p_z = strided (flatten Z) RANK SIZE,
          p_method = ''som_as_point''\<rparr>"
  by (simp add: electrodeParameters_def slice_from_def)

lemma contacts_local:
  assumes "0 < SIZE" "length (flatten Y) = length (flatten X)" "length (flatten Z) = length (flatten X)"
  shows "contacts (local_electrode r SIZE X Y Z t) = strided (grid_points X Y Z) r SIZE"
  using assms by (simp add: contacts_def local_electrode_def grid_points_def strided_zip)

lemma compute_phase_ok:
  assumes "0 < SIZE" "length (flatten Y) = length (flatten X)" "length (flatten Z) = length (flatten X)"
    and "solve (strided (grid_points X Y Z) r SIZE) = Inr t"
  shows "compute_phase solve c r SIZE X Y Z =
     Inr \<lparr>electrode = Some (local_electrode r SIZE X Y Z t), results = Some [], result = None,
          cell = c, pc = (if r = 0 then Collecting 1 else Sending)\<rparr>"
proof -
  have "contacts (RecExtElectrode \<lparr>p_sigma = 3 / 10, p_x = strided (flatten X) r SIZE,
          p_y = strided (flatten Y) r SIZE, p_z = strided (flatten Z) r SIZE,
          p_method = ''som_as_point''\<rparr> :: ('a, 'b) electrode) = strided (grid_points X Y Z) r SIZE"
    using contacts_local [OF assms(1-3), of r "[]"]
    by (simp add: RecExtElectrode_def local_electrode_def contacts_def)
  then show ?thesis
    using assms(1,4)
    by (simp add: compute_phase_def electrodeParameters_ok simulate_def RecExtElectrode_def
        local_electrode_def)
qed

lemma compute_phase_fails:
  assumes "0 < SIZE" "length (flatten Y) = length (flatten X)" "length (flatten Z) = length (flatten X)"
    and "solve (strided (grid_points X Y Z) r SIZE) = Inl e"
  shows "compute_phase solve c r SIZE X Y Z = Inl e"
proof -
  have "contacts (RecExtElectrode \<lparr>p_sigma = 3 / 10, p_x = strided (flatten X) r SIZE,
          p_y = strided (flatten Y) r SIZE, p_z = strided (flatten Z) r SIZE,
          p_method = ''som_as_point''\<rparr> :: ('a, 'b) electrode) = strided (grid_points X Y Z) r SIZE"
    using contacts_local [OF assms(1-3), of r "[]"]
    by (simp add: RecExtElectrode_def local_electrode_def contacts_def)
  then show ?thesis
    using assms(1,4)
    by (simp add: compute_phase_def electrodeParameters_ok simulate_def)
qed

lemma other_script_ok:
  assumes "0 < SIZE" "length (flatten Y) = length (flatten X)" "length (flatten Z) = length (flatten X)"
    and "solve (strided (grid_points X Y Z) r SIZE) = Inr t"
  shows "fst (other_script solve c r SIZE X Y Z) = [message_of (local_electrode r SIZE X Y Z t)]"
  using compute_phase_ok [of SIZE Y X Z solve r t c, OF assms]
  by (simp add: other_script_def send_branch_def)

section \<open>The merged result\<close>

lemma msg_contacts_message_of: "msg_contacts (message_of el) = contacts el"
  by (simp add: message_of_def contacts_def)

lemma mset_zero_order: "0 < SIZE \<Longrightarrow> mset order = mset [1..<SIZE] \<Longrightarrow> mset (0 # order) = mset [0..<SIZE]"
  by (simp add: upt_conv_Cons)

lemma gather_script_returns:
  assumes SIZE: "0 < SIZE"
    and len: "length (flatten Y) = length (flatten X)" "length (flatten Z) = length (flatten X)"
    and ok: "\<forall>r<SIZE. solve (strided (grid_points X Y Z) r SIZE) = Inr (T r)"
    and perm: "mset order = mset [1..<SIZE]"
  shows "\<exists>s. gather_script solve c SIZE X Y Z order = Returns s \<and>
           electrode s =
             Some (foldl merge_one (local_electrode 0 SIZE X Y Z (T 0))
                    (map (\<lambda>r. message_of (local_electrode r SIZE X Y Z (T r))) order)) \<and>
           results s = Some (map (\<lambda>r. message_of (local_electrode r SIZE X Y Z (T r))) order) \<and>
           cell s = c 0 \<and> pc s = Done"
proof -
  let ?M = "\<lambda>r. message_of (local_electrode r SIZE X Y Z (T r))"
  let ?s0 = "\<lparr>electrode = Some (local_electrode 0 SIZE X Y Z (T 0)), results = Some [],
              result = None, cell = c 0, pc = (if (0::nat) = 0 then Collecting 1 else Sending)\<rparr>"
  from perm have "set order = set [1..<SIZE]" by (rule mset_eq_setD)
  then have inr: "\<And>r. r \<in> set order \<Longrightarrow> r < SIZE" by auto
  have "map (\<lambda>r. fst (other_script solve (c r) r SIZE X Y Z)) order = map (\<lambda>r. [?M r]) order"
    by (rule map_cong [OF refl]) (use inr ok in \<open>simp add: other_script_ok [OF SIZE len]\<close>)
  then have "concat (map (\<lambda>r. fst (other_script solve (c r) r SIZE X Y Z)) order) =
      concat (map (\<lambda>r. [?M r]) order)"
    by (rule arg_cong)
  also have "\<dots> = map ?M order"
    by (induction order) simp_all
  finally have arr: "concat (map (\<lambda>r. fst (other_script solve (c r) r SIZE X Y Z)) order) = map ?M order" .
  from perm have "length order = length [1..<SIZE]" by (rule mset_eq_length)
  then have lo: "length order = SIZE - 1" by simp
  have cp: "compute_phase solve (c 0) 0 SIZE X Y Z = Inr ?s0"
    using ok SIZE by (intro compute_phase_ok [OF SIZE len]) simp
  have rs: "root_script SIZE (map ?M order) ?s0 =
     Returns (?s0\<lparr>result := (if SIZE \<le> 1 then result ?s0 else Some (map ?M order ! (SIZE - 2))),
                results := Some (take (SIZE - 1) (map ?M order)),
                electrode := Some (foldl merge_one (local_electrode 0 SIZE X Y Z (T 0))
                   (take (SIZE - 1) (map ?M order))),
                pc := Done\<rparr>)"
    using lo by (intro root_script_complete) simp_all
  show ?thesis
    unfolding gather_script_def cp arr using rs lo by simp
qed

lemma merged_contacts:
  assumes SIZE: "0 < SIZE"
    and len: "length (flatten Y) = length (flatten X)" "length (flatten Z) = length (flatten X)"
  shows "contacts (foldl merge_one (local_electrode r0 SIZE X Y Z t0)
            (map (\<lambda>r. message_of (local_electrode r SIZE X Y Z (T r))) order)) =
         concat (map (\<lambda>r. strided (grid_points X Y Z) r SIZE) (r0 # order))"
proof -
  let ?M = "\<lambda>r. message_of (local_electrode r SIZE X Y Z (T r))"
  have "contacts (foldl merge_one (local_electrode r0 SIZE X Y Z t0) (map ?M order)) =
      contacts (local_electrode r0 SIZE X Y Z t0) @ concat (map msg_contacts (map ?M order))"
    using len
    by (intro foldl_merge_contacts)
       (simp_all add: local_electrode_def message_of_def list_all_iff)
  also have "map msg_contacts (map ?M order) = map (\<lambda>r. strided (grid_points X Y Z) r SIZE) order"
    by (simp add: msg_contacts_message_of contacts_local [OF SIZE len])
  finally show ?thesis
    by (simp add: contacts_local [OF SIZE len])
qed

lemma concat_strided_indices:
  assumes "0 < W"
  shows "concat (map (\<lambda>r. strided a r W) rs) =
         map (\<lambda>i. a ! i) (concat (map (\<lambda>r. strided [0..<length a] r W) rs))"
  by (induction rs) (simp_all add: strided_map_nth [OF assms, of a])

text \<open>
  Claim C2. When every rank's solver run succeeds and the messages of the other ranks
  arrive in any order (a permutation \<open>order\<close> of the ranks \<open>1, ..., SIZE - 1\<close>), rank 0
  ends with an electrode whose contact points are the partitions of rank 0 and of the
  other ranks in the order of arrival: as a multiset they are the evaluation points of
  the grid, each index exactly once. The order is not the order of the grid: with three
  points and two ranks the merged points are the points 0, 2, 1.
\<close>

theorem merged_points_complete:
  assumes SIZE: "0 < SIZE"
    and len: "length (flatten Y) = length (flatten X)" "length (flatten Z) = length (flatten X)"
    and ok: "\<forall>r<SIZE. \<exists>t. solve (strided (grid_points X Y Z) r SIZE) = Inr t"
    and perm: "mset order = mset [1..<SIZE]"
  shows "(\<exists>s el. gather_script solve c SIZE X Y Z order = Returns s \<and> electrode s = Some el
            \<and> contacts el = concat (map (\<lambda>r. strided (grid_points X Y Z) r SIZE) (0 # order))
            \<and> mset (contacts el) = mset (grid_points X Y Z)
            \<and> (\<exists>idx. mset idx = mset [0..<length (grid_points X Y Z)]
                   \<and> contacts el = map (\<lambda>i. grid_points X Y Z ! i) idx))
       \<and> (case gather_script (\<lambda>ps. Inr (map (\<lambda>p. ()) ps)) (\<lambda>r. ()) 2
                  [[0, 1, 2 :: int]] [[0, 0, 0]] [[0, 0, 0]] [1] of
             Returns s \<Rightarrow> map_option contacts (electrode s)
           | Raises e \<Rightarrow> None
           | Blocks \<Rightarrow> None) = Some [(0, 0, 0), (2, 0, 0), (1, 0, 0)]
       \<and> grid_points [[0, 1, 2 :: int]] [[0, 0, 0]] [[0, 0, 0]] = [(0, 0, 0), (1, 0, 0), (2, 0, 0)]"
proof -
  let ?P = "grid_points X Y Z"
  from ok obtain T where T: "\<forall>r<SIZE. solve (strided ?P r SIZE) = Inr (T r)"
    by metis
  from gather_script_returns [OF SIZE len T perm, of c]
  obtain s where s: "gather_script solve c SIZE X Y Z order = Returns s"
    and el: "electrode s = Some (foldl merge_one (local_electrode 0 SIZE X Y Z (T 0))
                    (map (\<lambda>r. message_of (local_electrode r SIZE X Y Z (T r))) order))"
    by blast
  let ?el = "foldl merge_one (local_electrode 0 SIZE X Y Z (T 0))
                    (map (\<lambda>r. message_of (local_electrode r SIZE X Y Z (T r))) order)"
  have c: "contacts ?el = concat (map (\<lambda>r. strided ?P r SIZE) (0 # order))"
    by (rule merged_contacts [OF SIZE len])
  have m: "mset (contacts ?el) = mset ?P"
    unfolding c by (rule mset_strided_all [OF SIZE mset_zero_order [OF SIZE perm]])
  let ?idx = "concat (map (\<lambda>r. strided [0..<length ?P] r SIZE) (0 # order))"
  have "mset ?idx = mset [0..<length ?P]"
    by (rule mset_strided_all [OF SIZE mset_zero_order [OF SIZE perm]])
  moreover have "contacts ?el = map (\<lambda>i. ?P ! i) ?idx"
    unfolding c by (rule concat_strided_indices [OF SIZE])
  ultimately have i: "\<exists>idx. mset idx = mset [0..<length ?P] \<and> contacts ?el = map (\<lambda>i. ?P ! i) idx"
    by blast
  have ex: "(case gather_script (\<lambda>ps. Inr (map (\<lambda>p. ()) ps)) (\<lambda>r. ()) 2
                  [[0, 1, 2 :: int]] [[0, 0, 0]] [[0, 0, 0]] [1] of
             Returns s \<Rightarrow> map_option contacts (electrode s)
           | Raises e \<Rightarrow> None
           | Blocks \<Rightarrow> None) = Some [(0, 0, 0), (2, 0, 0), (1, 0, 0)]"
    by (simp add: gather_script_def compute_phase_def electrodeParameters_def slice_from_def
        strided_def slice_length_def flatten_def simulate_def RecExtElectrode_def contacts_def
        other_script_def send_branch_def message_of_def root_script_def recv_body_def
        end_collect_def pass_barrier_def merge_branch_def np_r_def upt_rec)
  have g: "grid_points [[0, 1, 2 :: int]] [[0, 0, 0]] [[0, 0, 0]] = [(0, 0, 0), (1, 0, 0), (2, 0, 0)]"
    by (simp add: grid_points_def flatten_def)
  from s el c m i ex g show ?thesis by blast
qed

theorem merged_points_complete_witness:
  "\<exists>s el. gather_script (\<lambda>ps. Inr (map (\<lambda>p. ()) ps)) (\<lambda>r. ()) 2
              [[0, 1, 2 :: int]] [[0, 0, 0]] [[0, 0, 0]] [1] = Returns s
        \<and> electrode s = Some el
        \<and> mset (contacts el) = {#(0, 0, 0), (1, 0, 0), (2, 0, 0)#}"
proof -
  have ok: "\<forall>r<2. \<exists>t. (\<lambda>ps. Inr (map (\<lambda>p. ()) ps) :: py_error + unit list)
      (strided (grid_points [[0, 1, 2 :: int]] [[0, 0, 0]] [[0, 0, 0]]) r 2) = Inr t"
    by simp
  have g: "grid_points [[0, 1, 2 :: int]] [[0, 0, 0]] [[0, 0, 0]] = [(0, 0, 0), (1, 0, 0), (2, 0, 0)]"
    by (simp add: grid_points_def flatten_def)
  have p: "mset [1::nat] = mset [1..<2]"
    by (simp add: upt_rec)
  from merged_points_complete [of 2 "[[0, 0, 0]]" "[[0, 1, 2 :: int]]" "[[0, 0, 0]]", OF _ _ _ ok p]
  show ?thesis
    unfolding g by (simp add: flatten_def) blast
qed

section \<open>One rank, and the pairing of points and traces\<close>

lemma strided_whole: "strided a 0 (Suc 0) = a"
proof -
  have "slice_length (length a) 0 (Suc 0) = length a"
    by (simp add: slice_length_def)
  then show ?thesis
    by (simp add: strided_def map_nth)
qed

text \<open>
  Claim C3. With a single rank the slice \<^verbatim>\<open>[0::1]\<close> is the whole array, the receive loop
  over \<^verbatim>\<open>xrange(1, 1)\<close> takes no message, the merge loop over the empty \<^verbatim>\<open>results\<close>
  leaves the state as it is, and the script ends on rank 0 with exactly the electrode
  of one solver run over the full ordered point list (or with that run's exception).
\<close>

theorem serial_equivalence:
  "slice_from a 0 1 = Inr a
   \<and> collect_loop [1..<1] arrivals s = Returns (end_collect s)
   \<and> merge_branch (s\<lparr>results := Some []\<rparr>) = Inr (s\<lparr>results := Some [], pc := Done\<rparr>)
   \<and> gather_script solve c 1 X Y Z order =
       (case serial_electrode solve X Y Z of
          Inl e \<Rightarrow> Raises e
        | Inr el \<Rightarrow>
            Returns \<lparr>electrode = Some el, results = Some [], result = None, cell = c 0, pc = Done\<rparr>)"
proof -
  have a: "slice_from a 0 1 = Inr a"
    by (simp add: slice_from_def strided_whole)
  have b: "collect_loop [1..<1] arrivals s = Returns (end_collect s)"
    by simp
  have c: "merge_branch (s\<lparr>results := Some []\<rparr>) = Inr (s\<lparr>results := Some [], pc := Done\<rparr>)"
    by (simp add: merge_branch_def)
  have p: "electrodeParameters 0 1 X Y Z =
      Inr \<lparr>p_sigma = 3 / 10, p_x = flatten X, p_y = flatten Y, p_z = flatten Z,
           p_method = ''som_as_point''\<rparr>"
    by (simp add: electrodeParameters_def slice_from_def strided_whole [folded One_nat_def]
        del: One_nat_def)
  have d: "gather_script solve c 1 X Y Z order =
       (case serial_electrode solve X Y Z of
          Inl e \<Rightarrow> Raises e
        | Inr el \<Rightarrow>
            Returns \<lparr>electrode = Some el, results = Some [], result = None, cell = c 0, pc = Done\<rparr>)"
    unfolding gather_script_def compute_phase_def p serial_electrode_def
    by (simp add: root_script_def end_collect_def pass_barrier_def merge_branch_def
        split: sum.splits)
  from a b c d show ?thesis by blast
qed

lemma message_of_aligned: "aligned e \<Longrightarrow> msg_aligned (message_of e) \<and> msg_rows (message_of e) = rows e"
  by (simp add: aligned_def message_of_def rows_def)

lemma rows_nth:
  "aligned e \<Longrightarrow> j < length (el_x e) \<Longrightarrow> rows e ! j = (el_x e ! j, el_y e ! j, el_z e ! j, el_LFP e ! j)"
  by (simp add: aligned_def rows_def)

lemma length_rows: "aligned e \<Longrightarrow> length (rows e) = length (el_x e)"
  by (simp add: aligned_def rows_def)

lemma list_all_take: "list_all P xs \<Longrightarrow> list_all P (take k xs)"
  by (auto simp: list_all_iff dest: in_set_takeD)

text \<open>
  Claim C10. When the electrode of rank 0 and every received message are aligned (the
  three coordinate arrays and the potential matrix have the same number of entries),
  then after every pass of the merge loop the electrode is aligned and its rows are the
  rows it had followed by the rows of the messages merged so far; so at the end row
  \<open>j\<close> of the potential matrix belongs to the point \<open>(x[j], y[j], z[j])\<close>. The message
  built from an aligned electrode is aligned and has the rows of the electrode.
\<close>

theorem merge_keeps_pairing:
  assumes "electrode s = Some el" "results s = Some ms" "aligned el" "list_all msg_aligned ms"
  shows "(\<forall>k\<le>length ms. \<exists>s' el'. merge_loop s (take k ms) = Inr s' \<and> electrode s' = Some el'
             \<and> aligned el' \<and> rows el' = rows el @ concat (map msg_rows (take k ms)))
       \<and> (\<exists>s' el'. merge_branch s = Inr s' \<and> electrode s' = Some el' \<and> aligned el'
             \<and> rows el' = rows el @ concat (map msg_rows ms)
             \<and> length (rows el') = length (el_x el')
             \<and> (\<forall>j<length (el_x el').
                   rows el' ! j = (el_x el' ! j, el_y el' ! j, el_z el' ! j, el_LFP el' ! j)))
       \<and> msg_aligned (message_of el) \<and> msg_rows (message_of el) = rows el"
proof -
  have step: "\<exists>s' el'. merge_loop s (take k ms) = Inr s' \<and> electrode s' = Some el'
             \<and> aligned el' \<and> rows el' = rows el @ concat (map msg_rows (take k ms))" for k
  proof -
    have la: "list_all msg_aligned (take k ms)" using assms(4) by (rule list_all_take)
    show ?thesis
      using merge_loop_Some [OF assms(1), of "take k ms"]
        foldl_merge_aligned [OF assms(3) la] foldl_merge_rows [OF assms(3) la]
      by simp
  qed
  let ?el = "foldl merge_one el ms"
  have al: "aligned ?el" by (rule foldl_merge_aligned [OF assms(3,4)])
  have fin: "\<exists>s' el'. merge_branch s = Inr s' \<and> electrode s' = Some el' \<and> aligned el'
             \<and> rows el' = rows el @ concat (map msg_rows ms)
             \<and> length (rows el') = length (el_x el')
             \<and> (\<forall>j<length (el_x el').
                   rows el' ! j = (el_x el' ! j, el_y el' ! j, el_z el' ! j, el_LFP el' ! j))"
    using merge_branch_Some [OF assms(1,2)] al foldl_merge_rows [OF assms(3,4)]
      length_rows [OF al] rows_nth [OF al]
    by simp
  from step fin message_of_aligned [OF assms(3)] show ?thesis by blast
qed

theorem merge_keeps_pairing_witness:
  "\<exists>s' el'.
     merge_branch \<lparr>electrode = Some \<lparr>el_x = [1::int], el_y = [2], el_z = [3], el_LFP = [[7::int]]\<rparr>,
                    results = Some [([4], [5], [6], [[8]])], result = None, cell = (),
                    pc = PastBarrier\<rparr> = Inr s'
     \<and> electrode s' = Some el'
     \<and> rows el' = [(1, 2, 3, [7]), (4, 5, 6, [8])]"
proof -
  let ?el = "\<lparr>el_x = [1::int], el_y = [2], el_z = [3], el_LFP = [[7::int]]\<rparr>"
  let ?ms = "[([4::int], [5::int], [6::int], [[8::int]])]"
  let ?s = "\<lparr>electrode = Some ?el, results = Some ?ms, result = None, cell = (), pc = PastBarrier\<rparr>"
  have h: "electrode ?s = Some ?el" "results ?s = Some ?ms" "aligned ?el" "list_all msg_aligned ?ms"
    by (simp_all add: aligned_def)
  from merge_keeps_pairing [OF h]
  show ?thesis
    by (simp add: rows_def) blast
qed

section \<open>The grid of the script with two ranks\<close>

lemma length_grid:
  "length (flatten X_grid) = 121" "length (flatten Y_grid) = 121" "length (flatten Z_grid) = 121"
  by (simp_all add: X_grid_def Y_grid_def Z_grid_def mgrid_def times_array_def zeros_like_def
      flatten_def upto.simps)

lemma slice_length_grid: "slice_length 121 0 2 = 61" "slice_length 121 (Suc 0) 2 = 60"
  by (simp_all add: slice_length_def)

lemma strided_even: "strided [0..<N] 0 2 = filter even [0..<N]"
proof -
  have "strided [0..<N] 0 2 = filter (\<lambda>i. i mod 2 = 0) [0..<N]"
    by (rule strided_upt_filter) simp_all
  then show ?thesis by (simp add: even_iff_mod_2_eq_zero)
qed

lemma strided_odd: "strided [0..<N] (Suc 0) 2 = filter odd [0..<N]"
proof -
  have "strided [0..<N] (Suc 0) 2 = filter (\<lambda>i. i mod 2 = Suc 0) [0..<N]"
    by (rule strided_upt_filter) simp_all
  then show ?thesis by (simp add: odd_iff_mod_2_eq_one)
qed

lemma grid_parameters:
  "\<exists>p0 p1. electrodeParameters 0 2 X_grid Y_grid Z_grid = Inr p0
              \<and> electrodeParameters 1 2 X_grid Y_grid Z_grid = Inr p1
              \<and> length (p_x p0) = 61 \<and> length (p_y p0) = 61 \<and> length (p_z p0) = 61
              \<and> length (p_x p1) = 60 \<and> length (p_y p1) = 60 \<and> length (p_z p1) = 60
              \<and> p_x p0 = map (\<lambda>i. flatten X_grid ! i) (filter even [0..<121])
              \<and> p_x p1 = map (\<lambda>i. flatten X_grid ! i) (filter odd [0..<121])"
proof -
  have two: "0 < (2::nat)" by simp
  have x0: "strided (flatten X_grid) 0 2 = map (\<lambda>i. flatten X_grid ! i) (filter even [0..<121])"
    using strided_map_nth [OF two, of "flatten X_grid" 0]
    by (simp only: length_grid strided_even)
  have x1: "strided (flatten X_grid) 1 2 = map (\<lambda>i. flatten X_grid ! i) (filter odd [0..<121])"
    using strided_map_nth [OF two, of "flatten X_grid" "Suc 0"]
    by (simp only: length_grid strided_odd One_nat_def)
  have l0: "length (strided a 0 2) = 61" if "length a = 121" for a :: "int list"
    using that by (simp add: slice_length_grid)
  have l1: "length (strided a 1 2) = 60" if "length a = 121" for a :: "int list"
    using that by (simp add: slice_length_grid)
  show ?thesis
    unfolding electrodeParameters_ok [OF two]
    apply (intro exI conjI)
             apply (rule refl)
            apply (rule refl)
           apply (simp_all only: parameters.simps l0 l1 length_grid)
     apply (rule x0)
    apply (rule x1)
    done
qed

lemma distinct_grid: "distinct (grid_points X_grid Y_grid Z_grid)"
  by code_simp

lemma grid_gather:
  assumes "solve (strided (grid_points X_grid Y_grid Z_grid) 0 2) = Inr t0"
    and "solve (strided (grid_points X_grid Y_grid Z_grid) 1 2) = Inr t1"
  shows "\<exists>s el. gather_script solve c 2 X_grid Y_grid Z_grid [1] = Returns s
              \<and> electrode s = Some el
              \<and> length (contacts el) = 121 \<and> distinct (contacts el)
              \<and> mset (contacts el) = mset (grid_points X_grid Y_grid Z_grid)"
proof -
  let ?P = "grid_points X_grid Y_grid Z_grid"
  have two: "0 < (2::nat)" by simp
  have len: "length (flatten Y_grid) = length (flatten X_grid)"
    "length (flatten Z_grid) = length (flatten X_grid)"
    by (simp_all only: length_grid)
  have a: "length ?P = 121"
    by (simp add: grid_points_def length_grid)
  let ?T = "\<lambda>r::nat. if r = 0 then t0 else t1"
  have ok: "\<forall>r<2. solve (strided ?P r 2) = Inr (?T r)"
    using assms by (simp add: less_2_cases_iff)
  have perm: "mset [1::nat] = mset [1..<2]"
    by (simp add: upt_rec)
  from gather_script_returns [OF two len ok perm, of c]
  obtain s where s: "gather_script solve c 2 X_grid Y_grid Z_grid [1] = Returns s"
    and el: "electrode s = Some (foldl merge_one (local_electrode 0 2 X_grid Y_grid Z_grid (?T 0))
                    (map (\<lambda>r. message_of (local_electrode r 2 X_grid Y_grid Z_grid (?T r))) [1]))"
    by (elim exE conjE)
  let ?el = "foldl merge_one (local_electrode 0 2 X_grid Y_grid Z_grid (?T 0))
                    (map (\<lambda>r. message_of (local_electrode r 2 X_grid Y_grid Z_grid (?T r))) [1])"
  have cs: "contacts ?el = concat (map (\<lambda>r. strided ?P r 2) (0 # [1]))"
    by (rule merged_contacts [OF two len])
  have m: "mset (contacts ?el) = mset ?P"
    unfolding cs by (rule mset_strided_all [OF two mset_zero_order [OF two perm]])
  have l: "length (contacts ?el) = 121"
    using mset_eq_length [OF m] a by (simp only:)
  have di: "distinct (contacts ?el)"
    using mset_eq_imp_distinct_iff [OF m] distinct_grid by (simp only:)
  show ?thesis
    by (intro exI conjI) (rule s el l di m)+
qed

lemma grid_partitions:
  "partition_indices 121 0 2 = Inr (filter even [0..<121])"
  "partition_indices 121 1 2 = Inr (filter odd [0..<121])"
proof -
  have ne: "(2::nat) \<noteq> 0" by simp
  show "partition_indices 121 0 2 = Inr (filter even [0..<121])"
    by (simp only: partition_indices_def slice_from_def strided_even ne if_False)
  show "partition_indices 121 1 2 = Inr (filter odd [0..<121])"
    by (simp only: partition_indices_def slice_from_def strided_odd ne if_False One_nat_def)
qed

lemma length_grid_points: "length (grid_points X_grid Y_grid Z_grid) = 121"
  by (simp add: grid_points_def length_grid)

text \<open>
  Claim C6. On the eleven by eleven grid of the script with two ranks, rank 0 gets the
  61 points with even index and rank 1 the 60 points with odd index; and when both
  solver runs succeed, rank 0 ends with 121 contact points, all different, that are
  exactly the points of the grid.
\<close>

theorem end_to_end_grid:
  assumes "solve (strided (grid_points X_grid Y_grid Z_grid) 0 2) = Inr t0"
    and "solve (strided (grid_points X_grid Y_grid Z_grid) 1 2) = Inr t1"
  shows "length (grid_points X_grid Y_grid Z_grid) = 121
       \<and> partition_indices 121 0 2 = Inr (filter even [0..<121])
       \<and> partition_indices 121 1 2 = Inr (filter odd [0..<121])
       \<and> (\<exists>p0 p1. electrodeParameters 0 2 X_grid Y_grid Z_grid = Inr p0
              \<and> electrodeParameters 1 2 X_grid Y_grid Z_grid = Inr p1
              \<and> length (p_x p0) = 61 \<and> length (p_y p0) = 61 \<and> length (p_z p0) = 61
              \<and> length (p_x p1) = 60 \<and> length (p_y p1) = 60 \<and> length (p_z p1) = 60
              \<and> p_x p0 = map (\<lambda>i. flatten X_grid ! i) (filter even [0..<121])
              \<and> p_x p1 = map (\<lambda>i. flatten X_grid ! i) (filter odd [0..<121]))
       \<and> (\<exists>s el. gather_script solve c 2 X_grid Y_grid Z_grid [1] = Returns s
              \<and> electrode s = Some el
              \<and> length (contacts el) = 121 \<and> distinct (contacts el)
              \<and> mset (contacts el) = mset (grid_points X_grid Y_grid Z_grid))"
proof (intro conjI)
  show "length (grid_points X_grid Y_grid Z_grid) = 121"
    by (rule length_grid_points)
  show "partition_indices 121 0 2 = Inr (filter even [0..<121])"
    by (rule grid_partitions)
  show "partition_indices 121 1 2 = Inr (filter odd [0..<121])"
    by (rule grid_partitions)
  show "\<exists>p0 p1. electrodeParameters 0 2 X_grid Y_grid Z_grid = Inr p0
              \<and> electrodeParameters 1 2 X_grid Y_grid Z_grid = Inr p1
              \<and> length (p_x p0) = 61 \<and> length (p_y p0) = 61 \<and> length (p_z p0) = 61
              \<and> length (p_x p1) = 60 \<and> length (p_y p1) = 60 \<and> length (p_z p1) = 60
              \<and> p_x p0 = map (\<lambda>i. flatten X_grid ! i) (filter even [0..<121])
              \<and> p_x p1 = map (\<lambda>i. flatten X_grid ! i) (filter odd [0..<121])"
    by (rule grid_parameters)
  show "\<exists>s el. gather_script solve c 2 X_grid Y_grid Z_grid [1] = Returns s
              \<and> electrode s = Some el
              \<and> length (contacts el) = 121 \<and> distinct (contacts el)
              \<and> mset (contacts el) = mset (grid_points X_grid Y_grid Z_grid)"
    by (rule grid_gather [OF assms])
qed

theorem end_to_end_grid_witness:
  "\<exists>s el. gather_script (\<lambda>ps. Inr (map (\<lambda>p. ()) ps)) (\<lambda>r. ()) 2 X_grid Y_grid Z_grid [1] = Returns s
      \<and> electrode s = Some el \<and> length (contacts el) = 121 \<and> distinct (contacts el)"
proof -
  have "(\<lambda>ps. Inr (map (\<lambda>p. ()) ps) :: py_error + unit list)
          (strided (grid_points X_grid Y_grid Z_grid) 0 2) =
        Inr (map (\<lambda>p. ()) (strided (grid_points X_grid Y_grid Z_grid) 0 2))"
    and "(\<lambda>ps. Inr (map (\<lambda>p. ()) ps) :: py_error + unit list)
          (strided (grid_points X_grid Y_grid Z_grid) 1 2) =
        Inr (map (\<lambda>p. ()) (strided (grid_points X_grid Y_grid Z_grid) 1 2))"
    by (rule refl)+
  note t = end_to_end_grid [OF this, of "\<lambda>r. ()"]
  from t have "\<exists>s el. gather_script (\<lambda>ps. Inr (map (\<lambda>p. ()) ps)) (\<lambda>r. ()) 2 X_grid Y_grid Z_grid [1] = Returns s
              \<and> electrode s = Some el
              \<and> length (contacts el) = 121 \<and> distinct (contacts el)
              \<and> mset (contacts el) = mset (grid_points X_grid Y_grid Z_grid)"
    by (elim conjE)
  then obtain s el where
    "gather_script (\<lambda>ps. Inr (map (\<lambda>p. ()) ps)) (\<lambda>r. ()) 2 X_grid Y_grid Z_grid [1] = Returns s"
    "electrode s = Some el" "length (contacts el) = 121" "distinct (contacts el)"
    by (elim exE conjE)
  then show ?thesis by (intro exI conjI)
qed

section \<open>The invariant of the gather\<close>

lemma sends_append: "sends (evs @ evs') = sends evs @ sends evs'"
  by (induction evs rule: sends.induct) simp_all

lemma recvs_append: "recvs (evs @ evs') = recvs evs @ recvs evs'"
  by (induction evs rule: recvs.induct) simp_all

lemma gather_inv_init:
  assumes "0 < SIZE"
  shows "gather_inv SIZE E c [] (gather_init SIZE E c)"
  using assms
  by (auto simp: gather_inv_def gather_init_def other_state_def root_state_def after_compute_def
      past_def)

lemma send_branch_other:
  assumes "s = other_state E c r Sending"
  shows "send_branch s = Inr (message_of (E r), other_state E c r AtBarrier)"
  using assms by (simp add: send_branch_def other_state_def after_compute_def)

lemma inv_send:
  assumes inv: "gather_inv SIZE E c evs w"
    and r: "0 < r" "r < length (ranks w)" and pc: "pc (ranks w ! r) = Sending"
    and sb: "send_branch (ranks w ! r) = Inr (m, s')"
  shows "gather_inv SIZE E c (evs @ [Send r m])
           (w\<lparr>ranks := (ranks w)[r := s'], channel := add_mset (r, m) (channel w)\<rparr>)"
proof -
  from inv have len: "length (ranks w) = SIZE" by (simp add: gather_inv_def)
  with r have rS: "r < SIZE" by simp
  from inv r rS pc have st: "ranks w ! r = other_state E c r Sending"
    unfolding gather_inv_def by metis
  from send_branch_other [OF st] sb have m: "m = message_of (E r)" and s': "s' = other_state E c r AtBarrier"
    by simp_all
  have pcs': "pc s' = AtBarrier" by (simp add: s' other_state_def)
  have notin: "r \<notin> fst ` set (sends evs)"
  proof
    assume "r \<in> fst ` set (sends evs)"
    then obtain m' where "(r, m') \<in> set (sends evs)" by auto
    with inv have "pc (ranks w ! r) \<noteq> Sending" unfolding gather_inv_def by blast
    with pc show False by simp
  qed
  let ?w' = "w\<lparr>ranks := (ranks w)[r := s'], channel := add_mset (r, m) (channel w)\<rparr>"
  have nth: "\<And>q. q < SIZE \<Longrightarrow> (ranks w)[r := s'] ! q = (if q = r then s' else ranks w ! q)"
    using len by (simp add: nth_list_update)
  have root: "ranks ?w' ! 0 = ranks w ! 0" using r by simp
  from inv have 0: "0 < SIZE" by (simp add: gather_inv_def)
  have 1: "length (ranks ?w') = SIZE" using len by simp
  have 2: "\<forall>q. 0 < q \<and> q < SIZE \<longrightarrow>
         ranks ?w' ! q = other_state E c q (pc (ranks ?w' ! q)) \<and>
         (\<forall>i. pc (ranks ?w' ! q) \<noteq> Collecting i)"
  proof (intro allI impI)
    fix q assume q: "0 < q \<and> q < SIZE"
    show "ranks ?w' ! q = other_state E c q (pc (ranks ?w' ! q)) \<and>
         (\<forall>i. pc (ranks ?w' ! q) \<noteq> Collecting i)"
    proof (cases "q = r")
      case True
      then show ?thesis using q pcs' len by (simp add: s')
    next
      case False
      with inv q show ?thesis unfolding gather_inv_def by (simp add: nth)
    qed
  qed
  have 3: "ranks ?w' ! 0 = root_state E c (map snd (recvs (evs @ [Send r m]))) (pc (ranks ?w' ! 0))"
    using inv unfolding root by (simp add: gather_inv_def recvs_append)
  have 4: "pc (ranks ?w' ! 0) \<noteq> Sending"
    using inv unfolding root by (simp add: gather_inv_def)
  have 5: "\<forall>i. pc (ranks ?w' ! 0) = Collecting i \<longrightarrow>
      i = Suc (length (recvs (evs @ [Send r m]))) \<and> i \<le> SIZE"
    using inv unfolding root by (simp add: gather_inv_def recvs_append)
  have 6: "(\<forall>i. pc (ranks ?w' ! 0) \<noteq> Collecting i) \<longrightarrow> Suc (length (recvs (evs @ [Send r m]))) = SIZE"
    using inv unfolding root by (simp add: gather_inv_def recvs_append)
  have 7: "distinct (map fst (sends (evs @ [Send r m])))"
    using inv notin by (simp add: gather_inv_def sends_append)
  have old: "set (sends evs) = {(q, message_of (E q)) | q. 0 < q \<and> q < SIZE \<and> pc (ranks w ! q) \<noteq> Sending}"
    using inv by (simp add: gather_inv_def)
  have 8: "set (sends (evs @ [Send r m])) =
      {(q, message_of (E q)) | q. 0 < q \<and> q < SIZE \<and> pc (ranks ?w' ! q) \<noteq> Sending}"
  proof -
    have "{(q, message_of (E q)) | q. 0 < q \<and> q < SIZE \<and> pc (ranks ?w' ! q) \<noteq> Sending} =
          insert (r, m) {(q, message_of (E q)) | q. 0 < q \<and> q < SIZE \<and> pc (ranks w ! q) \<noteq> Sending}"
      using r rS pcs' pc m by (auto simp: nth split: if_splits)
    then show ?thesis by (simp add: sends_append old)
  qed
  have 9: "channel ?w' + mset (recvs (evs @ [Send r m])) = mset (sends (evs @ [Send r m]))"
    using inv by (simp add: gather_inv_def sends_append recvs_append)
  have nb: "Barrier \<notin> set evs"
  proof
    assume "Barrier \<in> set evs"
    with inv rS have "past (pc (ranks w ! r))" unfolding gather_inv_def by blast
    with pc show False by (simp add: past_def)
  qed
  have 10: "Barrier \<in> set (evs @ [Send r m]) \<longrightarrow> (\<forall>q<SIZE. past (pc (ranks ?w' ! q)))"
    using nb by simp
  have 11: "Barrier \<notin> set (evs @ [Send r m]) \<longrightarrow> (\<forall>q<SIZE. \<not> past (pc (ranks ?w' ! q)))"
  proof (intro impI allI)
    fix q assume "q < SIZE"
    moreover from inv nb have "\<forall>q<SIZE. \<not> past (pc (ranks w ! q))" unfolding gather_inv_def by blast
    ultimately show "\<not> past (pc (ranks ?w' ! q))"
      using pcs' by (simp add: nth past_def)
  qed
  have 12: "(Barrier \<notin> set (evs @ [Send r m]) \<and> list_all before_barrier (evs @ [Send r m])) \<or>
       (\<exists>pre post. evs @ [Send r m] = pre @ Barrier # post \<and> list_all before_barrier pre \<and>
          list_all after_barrier post)"
  proof -
    from inv nb have "list_all before_barrier evs"
      unfolding gather_inv_def by auto
    with nb show ?thesis by simp
  qed
  show ?thesis
    unfolding gather_inv_def
    using 0 1 2 3 4 5 6 7 8 9 10 11 12 by (intro conjI)
qed

lemma recv_body_root:
  assumes "s = root_state E c ms (Collecting i)"
  shows "recv_body m i s = Inr (root_state E c (ms @ [m]) (Collecting (Suc i)))"
  using assms by (simp add: recv_body_def root_state_def)

lemma inv_recv:
  assumes inv: "gather_inv SIZE E c evs w"
    and pc: "pc (ranks w ! 0) = Collecting i" and i: "i < SIZE"
    and ch: "(src, m) \<in># channel w"
    and rb: "recv_body m i (ranks w ! 0) = Inr s'"
  shows "gather_inv SIZE E c (evs @ [Recv src m])
           (w\<lparr>ranks := (ranks w)[0 := s'], channel := channel w - {#(src, m)#}\<rparr>)"
proof -
  from inv have 0: "0 < SIZE" and len: "length (ranks w) = SIZE" by (simp_all add: gather_inv_def)
  from inv pc have st: "ranks w ! 0 = root_state E c (map snd (recvs evs)) (Collecting i)"
    unfolding gather_inv_def by metis
  from recv_body_root [OF st] rb
  have s': "s' = root_state E c (map snd (recvs evs) @ [m]) (Collecting (Suc i))" by simp
  have pcs': "pc s' = Collecting (Suc i)" by (simp add: s' root_state_def)
  from inv pc have ilen: "i = Suc (length (recvs evs))" unfolding gather_inv_def by blast
  let ?w' = "w\<lparr>ranks := (ranks w)[0 := s'], channel := channel w - {#(src, m)#}\<rparr>"
  have nth: "\<And>q. q < SIZE \<Longrightarrow> (ranks w)[0 := s'] ! q = (if q = 0 then s' else ranks w ! q)"
    using len by (simp add: nth_list_update)
  have r0: "ranks ?w' ! 0 = s'" using 0 len by simp
  have 1: "length (ranks ?w') = SIZE" using len by simp
  have 2: "\<forall>q. 0 < q \<and> q < SIZE \<longrightarrow>
         ranks ?w' ! q = other_state E c q (pc (ranks ?w' ! q)) \<and>
         (\<forall>i. pc (ranks ?w' ! q) \<noteq> Collecting i)"
    using inv unfolding gather_inv_def by (simp add: nth)
  have 3: "ranks ?w' ! 0 = root_state E c (map snd (recvs (evs @ [Recv src m]))) (pc (ranks ?w' ! 0))"
    unfolding r0 pcs' by (simp add: recvs_append s')
  have 4: "pc (ranks ?w' ! 0) \<noteq> Sending"
    unfolding r0 pcs' by simp
  have 5: "\<forall>j. pc (ranks ?w' ! 0) = Collecting j \<longrightarrow>
      j = Suc (length (recvs (evs @ [Recv src m]))) \<and> j \<le> SIZE"
    unfolding r0 pcs' using ilen i by (simp add: recvs_append)
  have 6: "(\<forall>j. pc (ranks ?w' ! 0) \<noteq> Collecting j) \<longrightarrow> Suc (length (recvs (evs @ [Recv src m]))) = SIZE"
    unfolding r0 pcs' by simp
  have 7: "distinct (map fst (sends (evs @ [Recv src m])))"
    using inv by (simp add: gather_inv_def sends_append)
  have old: "set (sends evs) = {(q, message_of (E q)) | q. 0 < q \<and> q < SIZE \<and> pc (ranks w ! q) \<noteq> Sending}"
    using inv by (simp add: gather_inv_def)
  have 8: "set (sends (evs @ [Recv src m])) =
      {(q, message_of (E q)) | q. 0 < q \<and> q < SIZE \<and> pc (ranks ?w' ! q) \<noteq> Sending}"
  proof -
    have "{(q, message_of (E q)) | q. 0 < q \<and> q < SIZE \<and> pc (ranks ?w' ! q) \<noteq> Sending} =
          {(q, message_of (E q)) | q. 0 < q \<and> q < SIZE \<and> pc (ranks w ! q) \<noteq> Sending}"
      by (auto simp: nth)
    then show ?thesis by (simp add: sends_append old)
  qed
  have 9: "channel ?w' + mset (recvs (evs @ [Recv src m])) = mset (sends (evs @ [Recv src m]))"
  proof -
    from inv have eq: "channel w + mset (recvs evs) = mset (sends evs)" by (simp add: gather_inv_def)
    have "channel w - {#(src, m)#} + mset (recvs evs @ [(src, m)]) =
        add_mset (src, m) (channel w - {#(src, m)#}) + mset (recvs evs)"
      by simp
    also have "add_mset (src, m) (channel w - {#(src, m)#}) = channel w"
      using ch by (rule insert_DiffM)
    finally have fin: "channel w - {#(src, m)#} + mset (recvs evs @ [(src, m)]) = mset (sends evs)"
      using eq by (simp only:)
    have "channel ?w' = channel w - {#(src, m)#}" by simp
    moreover have "recvs (evs @ [Recv src m]) = recvs evs @ [(src, m)]" by (simp add: recvs_append)
    moreover have "sends (evs @ [Recv src m]) = sends evs" by (simp add: sends_append)
    ultimately show ?thesis using fin by (simp only:)
  qed
  have nb: "Barrier \<notin> set evs"
  proof
    assume "Barrier \<in> set evs"
    with inv 0 have "past (pc (ranks w ! 0))" unfolding gather_inv_def by blast
    with pc show False by (simp add: past_def)
  qed
  have 10: "Barrier \<in> set (evs @ [Recv src m]) \<longrightarrow> (\<forall>q<SIZE. past (pc (ranks ?w' ! q)))"
    using nb by simp
  have 11: "Barrier \<notin> set (evs @ [Recv src m]) \<longrightarrow> (\<forall>q<SIZE. \<not> past (pc (ranks ?w' ! q)))"
  proof (intro impI allI)
    fix q assume "q < SIZE"
    moreover from inv nb have "\<forall>q<SIZE. \<not> past (pc (ranks w ! q))" unfolding gather_inv_def by blast
    ultimately show "\<not> past (pc (ranks ?w' ! q))"
      using pcs' by (simp add: nth past_def)
  qed
  have 12: "(Barrier \<notin> set (evs @ [Recv src m]) \<and> list_all before_barrier (evs @ [Recv src m])) \<or>
       (\<exists>pre post. evs @ [Recv src m] = pre @ Barrier # post \<and> list_all before_barrier pre \<and>
          list_all after_barrier post)"
  proof -
    from inv nb have "list_all before_barrier evs"
      unfolding gather_inv_def by auto
    with nb show ?thesis by simp
  qed
  show ?thesis
    unfolding gather_inv_def
    using 0 1 2 3 4 5 6 7 8 9 10 11 12 by (intro conjI)
qed

lemma pc_other_state [simp]: "0 < r \<Longrightarrow> pc (other_state E c r p) = p"
  by (simp add: other_state_def after_compute_def)

lemma pc_root_state [simp]: "pc (root_state E c ms p) = p"
  by (simp add: root_state_def)

lemma before_barrier_only:
  assumes inv: "gather_inv SIZE E c evs w" and np: "\<not> past (pc (ranks w ! 0))"
  shows "Barrier \<notin> set evs" "list_all before_barrier evs"
proof -
  from inv have 0: "0 < SIZE" by (simp add: gather_inv_def)
  show nb: "Barrier \<notin> set evs"
  proof
    assume "Barrier \<in> set evs"
    with inv 0 have "past (pc (ranks w ! 0))" unfolding gather_inv_def by blast
    with np show False by simp
  qed
  from inv nb show "list_all before_barrier evs"
    unfolding gather_inv_def by auto
qed

lemma inv_end_collect:
  assumes inv: "gather_inv SIZE E c evs w"
    and pc: "pc (ranks w ! 0) = Collecting i" and i: "\<not> i < SIZE"
  shows "gather_inv SIZE E c (evs @ [EndCollect])
           (w\<lparr>ranks := (ranks w)[0 := end_collect (ranks w ! 0)]\<rparr>)"
proof -
  from inv have 0: "0 < SIZE" and len: "length (ranks w) = SIZE" by (simp_all add: gather_inv_def)
  from inv pc have st: "ranks w ! 0 = root_state E c (map snd (recvs evs)) (Collecting i)"
    unfolding gather_inv_def by metis
  let ?s' = "end_collect (ranks w ! 0)"
  have s': "?s' = root_state E c (map snd (recvs evs)) AtBarrier"
    unfolding st by (simp add: end_collect_def root_state_def)
  have pcs': "pc ?s' = AtBarrier" by (simp add: end_collect_def)
  from inv pc have "i = Suc (length (recvs evs)) \<and> i \<le> SIZE" unfolding gather_inv_def by blast
  with i have full: "Suc (length (recvs evs)) = SIZE" by simp
  let ?w' = "w\<lparr>ranks := (ranks w)[0 := ?s']\<rparr>"
  have r0: "ranks ?w' ! 0 = ?s'" using 0 len by simp
  have nth: "\<And>q. q < SIZE \<Longrightarrow> (ranks w)[0 := ?s'] ! q = (if q = 0 then ?s' else ranks w ! q)"
    using len by (simp add: nth_list_update)
  have 1: "length (ranks ?w') = SIZE" using len by simp
  have 2: "\<forall>q. 0 < q \<and> q < SIZE \<longrightarrow>
         ranks ?w' ! q = other_state E c q (pc (ranks ?w' ! q)) \<and>
         (\<forall>i. pc (ranks ?w' ! q) \<noteq> Collecting i)"
    using inv unfolding gather_inv_def by (simp add: nth)
  have 3: "ranks ?w' ! 0 = root_state E c (map snd (recvs (evs @ [EndCollect]))) (pc (ranks ?w' ! 0))"
    unfolding r0 pcs' by (simp add: recvs_append s')
  have 4: "pc (ranks ?w' ! 0) \<noteq> Sending"
    unfolding r0 pcs' by simp
  have 5: "\<forall>j. pc (ranks ?w' ! 0) = Collecting j \<longrightarrow>
      j = Suc (length (recvs (evs @ [EndCollect]))) \<and> j \<le> SIZE"
    unfolding r0 pcs' by simp
  have 6: "(\<forall>j. pc (ranks ?w' ! 0) \<noteq> Collecting j) \<longrightarrow> Suc (length (recvs (evs @ [EndCollect]))) = SIZE"
    using full by (simp add: recvs_append)
  have 7: "distinct (map fst (sends (evs @ [EndCollect])))"
    using inv by (simp add: gather_inv_def sends_append)
  have old: "set (sends evs) = {(q, message_of (E q)) | q. 0 < q \<and> q < SIZE \<and> pc (ranks w ! q) \<noteq> Sending}"
    using inv by (simp add: gather_inv_def)
  have 8: "set (sends (evs @ [EndCollect])) =
      {(q, message_of (E q)) | q. 0 < q \<and> q < SIZE \<and> pc (ranks ?w' ! q) \<noteq> Sending}"
  proof -
    have "{(q, message_of (E q)) | q. 0 < q \<and> q < SIZE \<and> pc (ranks ?w' ! q) \<noteq> Sending} =
          {(q, message_of (E q)) | q. 0 < q \<and> q < SIZE \<and> pc (ranks w ! q) \<noteq> Sending}"
      by (auto simp: nth)
    then show ?thesis by (simp add: sends_append old)
  qed
  have 9: "channel ?w' + mset (recvs (evs @ [EndCollect])) = mset (sends (evs @ [EndCollect]))"
    using inv by (simp add: gather_inv_def sends_append recvs_append)
  have np: "\<not> past (pc (ranks w ! 0))" using pc by (simp add: past_def)
  note nb = before_barrier_only [OF inv np]
  have 10: "Barrier \<in> set (evs @ [EndCollect]) \<longrightarrow> (\<forall>q<SIZE. past (pc (ranks ?w' ! q)))"
    using nb by simp
  have 11: "Barrier \<notin> set (evs @ [EndCollect]) \<longrightarrow> (\<forall>q<SIZE. \<not> past (pc (ranks ?w' ! q)))"
  proof (intro impI allI)
    fix q assume "q < SIZE"
    moreover from inv nb have "\<forall>q<SIZE. \<not> past (pc (ranks w ! q))" unfolding gather_inv_def by blast
    ultimately show "\<not> past (pc (ranks ?w' ! q))"
      using pcs' by (simp add: nth past_def)
  qed
  have 12: "(Barrier \<notin> set (evs @ [EndCollect]) \<and> list_all before_barrier (evs @ [EndCollect])) \<or>
       (\<exists>pre post. evs @ [EndCollect] = pre @ Barrier # post \<and> list_all before_barrier pre \<and>
          list_all after_barrier post)"
    using nb by simp
  show ?thesis
    unfolding gather_inv_def
    using 0 1 2 3 4 5 6 7 8 9 10 11 12 by (intro conjI)
qed

lemma pass_barrier_other:
  "p \<noteq> Sending \<Longrightarrow> pass_barrier (other_state E c r p) = other_state E c r PastBarrier"
  by (simp add: pass_barrier_def other_state_def)

lemma pass_barrier_root:
  "p \<noteq> Done \<Longrightarrow> pass_barrier (root_state E c ms p) = root_state E c ms PastBarrier"
  by (simp add: pass_barrier_def root_state_def)

lemma inv_barrier:
  assumes inv: "gather_inv SIZE E c evs w"
    and all: "list_all (\<lambda>s. pc s = AtBarrier) (ranks w)"
  shows "gather_inv SIZE E c (evs @ [Barrier]) (w\<lparr>ranks := map pass_barrier (ranks w)\<rparr>)"
proof -
  from inv have 0: "0 < SIZE" and len: "length (ranks w) = SIZE" by (simp_all add: gather_inv_def)
  from all len have at: "\<And>q. q < SIZE \<Longrightarrow> pc (ranks w ! q) = AtBarrier"
    by (simp add: list_all_length)
  let ?w' = "w\<lparr>ranks := map pass_barrier (ranks w)\<rparr>"
  have nth: "\<And>q. q < SIZE \<Longrightarrow> ranks ?w' ! q = pass_barrier (ranks w ! q)"
    using len by simp
  have pcs: "\<And>q. q < SIZE \<Longrightarrow> pc (ranks ?w' ! q) = PastBarrier"
    using len by (simp add: pass_barrier_def)
  have 1: "length (ranks ?w') = SIZE" using len by simp
  have 2: "\<forall>q. 0 < q \<and> q < SIZE \<longrightarrow>
         ranks ?w' ! q = other_state E c q (pc (ranks ?w' ! q)) \<and>
         (\<forall>i. pc (ranks ?w' ! q) \<noteq> Collecting i)"
  proof (intro allI impI)
    fix q assume q: "0 < q \<and> q < SIZE"
    with inv have "ranks w ! q = other_state E c q (pc (ranks w ! q))"
      unfolding gather_inv_def by blast
    with at q have "ranks w ! q = other_state E c q AtBarrier" by simp
    then have "pass_barrier (ranks w ! q) = other_state E c q PastBarrier"
      by (simp add: pass_barrier_other)
    with q show "ranks ?w' ! q = other_state E c q (pc (ranks ?w' ! q)) \<and>
         (\<forall>i. pc (ranks ?w' ! q) \<noteq> Collecting i)"
      by (simp only: nth pcs) simp
  qed
  from inv have "ranks w ! 0 = root_state E c (map snd (recvs evs)) (pc (ranks w ! 0))"
    by (simp add: gather_inv_def)
  with at 0 have "ranks w ! 0 = root_state E c (map snd (recvs evs)) AtBarrier" by simp
  then have pr: "pass_barrier (ranks w ! 0) = root_state E c (map snd (recvs evs)) PastBarrier"
    by (simp add: pass_barrier_root)
  have 3: "ranks ?w' ! 0 = root_state E c (map snd (recvs (evs @ [Barrier]))) (pc (ranks ?w' ! 0))"
    using 0 pr by (simp only: nth pcs) (simp add: recvs_append)
  have 4: "pc (ranks ?w' ! 0) \<noteq> Sending"
    using 0 by (simp only: pcs) simp
  have 5: "\<forall>j. pc (ranks ?w' ! 0) = Collecting j \<longrightarrow>
      j = Suc (length (recvs (evs @ [Barrier]))) \<and> j \<le> SIZE"
    using 0 by (simp only: pcs) simp
  have 6: "(\<forall>j. pc (ranks ?w' ! 0) \<noteq> Collecting j) \<longrightarrow> Suc (length (recvs (evs @ [Barrier]))) = SIZE"
  proof -
    from at 0 have "\<forall>j. pc (ranks w ! 0) \<noteq> Collecting j" by simp
    with inv have "Suc (length (recvs evs)) = SIZE" unfolding gather_inv_def by blast
    then show ?thesis by (simp add: recvs_append)
  qed
  have 7: "distinct (map fst (sends (evs @ [Barrier])))"
    using inv by (simp add: gather_inv_def sends_append)
  have old: "set (sends evs) = {(q, message_of (E q)) | q. 0 < q \<and> q < SIZE \<and> pc (ranks w ! q) \<noteq> Sending}"
    using inv by (simp add: gather_inv_def)
  have 8: "set (sends (evs @ [Barrier])) =
      {(q, message_of (E q)) | q. 0 < q \<and> q < SIZE \<and> pc (ranks ?w' ! q) \<noteq> Sending}"
  proof -
    have "{(q, message_of (E q)) | q. 0 < q \<and> q < SIZE \<and> pc (ranks ?w' ! q) \<noteq> Sending} =
          {(q, message_of (E q)) | q. 0 < q \<and> q < SIZE \<and> pc (ranks w ! q) \<noteq> Sending}"
      using at pcs by auto
    then show ?thesis by (simp add: sends_append old)
  qed
  have 9: "channel ?w' + mset (recvs (evs @ [Barrier])) = mset (sends (evs @ [Barrier]))"
    using inv by (simp add: gather_inv_def sends_append recvs_append)
  have np: "\<not> past (pc (ranks w ! 0))" using at 0 by (simp add: past_def)
  note nb = before_barrier_only [OF inv np]
  have 10: "Barrier \<in> set (evs @ [Barrier]) \<longrightarrow> (\<forall>q<SIZE. past (pc (ranks ?w' ! q)))"
    using pcs by (simp add: past_def)
  have 11: "Barrier \<notin> set (evs @ [Barrier]) \<longrightarrow> (\<forall>q<SIZE. \<not> past (pc (ranks ?w' ! q)))"
    by simp
  have 12: "(Barrier \<notin> set (evs @ [Barrier]) \<and> list_all before_barrier (evs @ [Barrier])) \<or>
       (\<exists>pre post. evs @ [Barrier] = pre @ Barrier # post \<and> list_all before_barrier pre \<and>
          list_all after_barrier post)"
  proof -
    have "evs @ [Barrier] = evs @ Barrier # [] \<and> list_all before_barrier evs \<and>
          list_all after_barrier ([] :: ('a, 'b) event list)"
      using nb by simp
    then show ?thesis by blast
  qed
  show ?thesis
    unfolding gather_inv_def
    using 0 1 2 3 4 5 6 7 8 9 10 11 12 by (intro conjI)
qed

lemma after_barrier_shape:
  assumes inv: "gather_inv SIZE E c evs w" and p: "past (pc (ranks w ! 0))"
  shows "Barrier \<in> set evs"
    and "\<exists>pre post. evs = pre @ Barrier # post \<and> list_all before_barrier pre \<and>
          list_all after_barrier post"
proof -
  from inv have 0: "0 < SIZE" by (simp add: gather_inv_def)
  show b: "Barrier \<in> set evs"
  proof (rule ccontr)
    assume "Barrier \<notin> set evs"
    with inv 0 have "\<not> past (pc (ranks w ! 0))" unfolding gather_inv_def by blast
    with p show False by simp
  qed
  from inv b show "\<exists>pre post. evs = pre @ Barrier # post \<and> list_all before_barrier pre \<and>
          list_all after_barrier post"
    unfolding gather_inv_def by blast
qed

lemma merge_branch_root:
  assumes "s = root_state E c ms PastBarrier"
  shows "merge_branch s = Inr (root_state E c ms Done)"
proof -
  have e: "electrode s = Some (E 0)" and r: "results s = Some ms"
    using assms by (simp_all add: root_state_def after_compute_def)
  show ?thesis
    unfolding merge_branch_Some [OF e r]
    using assms by (simp add: root_state_def)
qed

lemma inv_merge:
  assumes inv: "gather_inv SIZE E c evs w"
    and pc: "pc (ranks w ! 0) = PastBarrier"
    and mb: "merge_branch (ranks w ! 0) = Inr s'"
  shows "gather_inv SIZE E c (evs @ [Merge]) (w\<lparr>ranks := (ranks w)[0 := s']\<rparr>)"
proof -
  from inv have 0: "0 < SIZE" and len: "length (ranks w) = SIZE" by (simp_all add: gather_inv_def)
  from inv pc have st: "ranks w ! 0 = root_state E c (map snd (recvs evs)) PastBarrier"
    unfolding gather_inv_def by metis
  from merge_branch_root [OF st] mb have s': "s' = root_state E c (map snd (recvs evs)) Done"
    by simp
  have pcs': "pc s' = Done" by (simp add: s')
  let ?w' = "w\<lparr>ranks := (ranks w)[0 := s']\<rparr>"
  have r0: "ranks ?w' ! 0 = s'" using 0 len by simp
  have nth: "\<And>q. q < SIZE \<Longrightarrow> (ranks w)[0 := s'] ! q = (if q = 0 then s' else ranks w ! q)"
    using len by (simp add: nth_list_update)
  have 1: "length (ranks ?w') = SIZE" using len by simp
  have 2: "\<forall>q. 0 < q \<and> q < SIZE \<longrightarrow>
         ranks ?w' ! q = other_state E c q (pc (ranks ?w' ! q)) \<and>
         (\<forall>i. pc (ranks ?w' ! q) \<noteq> Collecting i)"
    using inv unfolding gather_inv_def by (simp add: nth)
  have 3: "ranks ?w' ! 0 = root_state E c (map snd (recvs (evs @ [Merge]))) (pc (ranks ?w' ! 0))"
    unfolding r0 pcs' by (simp add: recvs_append s')
  have 4: "pc (ranks ?w' ! 0) \<noteq> Sending"
    unfolding r0 pcs' by simp
  have 5: "\<forall>j. pc (ranks ?w' ! 0) = Collecting j \<longrightarrow>
      j = Suc (length (recvs (evs @ [Merge]))) \<and> j \<le> SIZE"
    unfolding r0 pcs' by simp
  have 6: "(\<forall>j. pc (ranks ?w' ! 0) \<noteq> Collecting j) \<longrightarrow> Suc (length (recvs (evs @ [Merge]))) = SIZE"
  proof -
    from pc have "\<forall>j. pc (ranks w ! 0) \<noteq> Collecting j" by simp
    with inv have "Suc (length (recvs evs)) = SIZE" unfolding gather_inv_def by blast
    then show ?thesis by (simp add: recvs_append)
  qed
  have 7: "distinct (map fst (sends (evs @ [Merge])))"
    using inv by (simp add: gather_inv_def sends_append)
  have old: "set (sends evs) = {(q, message_of (E q)) | q. 0 < q \<and> q < SIZE \<and> pc (ranks w ! q) \<noteq> Sending}"
    using inv by (simp add: gather_inv_def)
  have 8: "set (sends (evs @ [Merge])) =
      {(q, message_of (E q)) | q. 0 < q \<and> q < SIZE \<and> pc (ranks ?w' ! q) \<noteq> Sending}"
  proof -
    have "{(q, message_of (E q)) | q. 0 < q \<and> q < SIZE \<and> pc (ranks ?w' ! q) \<noteq> Sending} =
          {(q, message_of (E q)) | q. 0 < q \<and> q < SIZE \<and> pc (ranks w ! q) \<noteq> Sending}"
      by (auto simp: nth)
    then show ?thesis by (simp add: sends_append old)
  qed
  have 9: "channel ?w' + mset (recvs (evs @ [Merge])) = mset (sends (evs @ [Merge]))"
    using inv by (simp add: gather_inv_def sends_append recvs_append)
  have p: "past (pc (ranks w ! 0))" using pc by (simp add: past_def)
  note ab = after_barrier_shape [OF inv p]
  from inv ab(1) have allp: "\<forall>q<SIZE. past (pc (ranks w ! q))" unfolding gather_inv_def by blast
  have 10: "Barrier \<in> set (evs @ [Merge]) \<longrightarrow> (\<forall>q<SIZE. past (pc (ranks ?w' ! q)))"
    using allp pcs' by (simp add: nth past_def)
  have 11: "Barrier \<notin> set (evs @ [Merge]) \<longrightarrow> (\<forall>q<SIZE. \<not> past (pc (ranks ?w' ! q)))"
    using ab(1) by simp
  have 12: "(Barrier \<notin> set (evs @ [Merge]) \<and> list_all before_barrier (evs @ [Merge])) \<or>
       (\<exists>pre post. evs @ [Merge] = pre @ Barrier # post \<and> list_all before_barrier pre \<and>
          list_all after_barrier post)"
  proof -
    from ab(2) obtain pre post where e: "evs = pre @ Barrier # post"
      and pp: "list_all before_barrier pre" "list_all after_barrier post" by blast
    have "evs @ [Merge] = pre @ Barrier # (post @ [Merge]) \<and> list_all before_barrier pre \<and>
        list_all after_barrier (post @ [Merge])"
      using e pp by simp
    then show ?thesis by blast
  qed
  show ?thesis
    unfolding gather_inv_def
    using 0 1 2 3 4 5 6 7 8 9 10 11 12 by (intro conjI)
qed

lemma inv_exit:
  assumes inv: "gather_inv SIZE E c evs w"
    and r: "0 < r" "r < length (ranks w)" and pc: "pc (ranks w ! r) = PastBarrier"
  shows "gather_inv SIZE E c (evs @ [Exit r]) (w\<lparr>ranks := (ranks w)[r := exit_branch (ranks w ! r)]\<rparr>)"
proof -
  from inv have 0: "0 < SIZE" and len: "length (ranks w) = SIZE" by (simp_all add: gather_inv_def)
  with r have rS: "r < SIZE" by simp
  from inv r rS pc have st: "ranks w ! r = other_state E c r PastBarrier"
    unfolding gather_inv_def by metis
  let ?s' = "exit_branch (ranks w ! r)"
  have s': "?s' = other_state E c r Done"
    unfolding st by (simp add: exit_branch_def other_state_def)
  have pcs': "pc ?s' = Done" by (simp add: exit_branch_def)
  let ?w' = "w\<lparr>ranks := (ranks w)[r := ?s']\<rparr>"
  have nth: "\<And>q. q < SIZE \<Longrightarrow> (ranks w)[r := ?s'] ! q = (if q = r then ?s' else ranks w ! q)"
    using len by (simp add: nth_list_update)
  have root: "ranks ?w' ! 0 = ranks w ! 0" using r by simp
  have 1: "length (ranks ?w') = SIZE" using len by simp
  have 2: "\<forall>q. 0 < q \<and> q < SIZE \<longrightarrow>
         ranks ?w' ! q = other_state E c q (pc (ranks ?w' ! q)) \<and>
         (\<forall>i. pc (ranks ?w' ! q) \<noteq> Collecting i)"
  proof (intro allI impI)
    fix q assume q: "0 < q \<and> q < SIZE"
    show "ranks ?w' ! q = other_state E c q (pc (ranks ?w' ! q)) \<and>
         (\<forall>i. pc (ranks ?w' ! q) \<noteq> Collecting i)"
    proof (cases "q = r")
      case True
      have "ranks ?w' ! r = ?s'" using len rS by simp
      then show ?thesis unfolding True using r by (simp only: s') simp
    next
      case False
      with inv q show ?thesis unfolding gather_inv_def by (simp add: nth)
    qed
  qed
  have 3: "ranks ?w' ! 0 = root_state E c (map snd (recvs (evs @ [Exit r]))) (pc (ranks ?w' ! 0))"
    using inv unfolding root by (simp add: gather_inv_def recvs_append)
  have 4: "pc (ranks ?w' ! 0) \<noteq> Sending"
    using inv unfolding root by (simp add: gather_inv_def)
  have 5: "\<forall>i. pc (ranks ?w' ! 0) = Collecting i \<longrightarrow>
      i = Suc (length (recvs (evs @ [Exit r]))) \<and> i \<le> SIZE"
    using inv unfolding root by (simp add: gather_inv_def recvs_append)
  have 6: "(\<forall>i. pc (ranks ?w' ! 0) \<noteq> Collecting i) \<longrightarrow> Suc (length (recvs (evs @ [Exit r]))) = SIZE"
    using inv unfolding root by (simp add: gather_inv_def recvs_append)
  have 7: "distinct (map fst (sends (evs @ [Exit r])))"
    using inv by (simp add: gather_inv_def sends_append)
  have old: "set (sends evs) = {(q, message_of (E q)) | q. 0 < q \<and> q < SIZE \<and> pc (ranks w ! q) \<noteq> Sending}"
    using inv by (simp add: gather_inv_def)
  have 8: "set (sends (evs @ [Exit r])) =
      {(q, message_of (E q)) | q. 0 < q \<and> q < SIZE \<and> pc (ranks ?w' ! q) \<noteq> Sending}"
  proof -
    have "{(q, message_of (E q)) | q. 0 < q \<and> q < SIZE \<and> pc (ranks ?w' ! q) \<noteq> Sending} =
          {(q, message_of (E q)) | q. 0 < q \<and> q < SIZE \<and> pc (ranks w ! q) \<noteq> Sending}"
      using pc pcs' by (auto simp: nth split: if_splits)
    then show ?thesis by (simp add: sends_append old)
  qed
  have 9: "channel ?w' + mset (recvs (evs @ [Exit r])) = mset (sends (evs @ [Exit r]))"
    using inv by (simp add: gather_inv_def sends_append recvs_append)
  have b: "Barrier \<in> set evs"
  proof (rule ccontr)
    assume "Barrier \<notin> set evs"
    with inv rS have "\<not> past (pc (ranks w ! r))" unfolding gather_inv_def by blast
    with pc show False by (simp add: past_def)
  qed
  from inv b have allp: "\<forall>q<SIZE. past (pc (ranks w ! q))" unfolding gather_inv_def by blast
  have 10: "Barrier \<in> set (evs @ [Exit r]) \<longrightarrow> (\<forall>q<SIZE. past (pc (ranks ?w' ! q)))"
    using allp pcs' by (simp add: nth past_def)
  have 11: "Barrier \<notin> set (evs @ [Exit r]) \<longrightarrow> (\<forall>q<SIZE. \<not> past (pc (ranks ?w' ! q)))"
    using b by simp
  have 12: "(Barrier \<notin> set (evs @ [Exit r]) \<and> list_all before_barrier (evs @ [Exit r])) \<or>
       (\<exists>pre post. evs @ [Exit r] = pre @ Barrier # post \<and> list_all before_barrier pre \<and>
          list_all after_barrier post)"
  proof -
    from inv b obtain pre post where e: "evs = pre @ Barrier # post"
      and pp: "list_all before_barrier pre" "list_all after_barrier post"
      unfolding gather_inv_def by blast
    have "evs @ [Exit r] = pre @ Barrier # (post @ [Exit r]) \<and> list_all before_barrier pre \<and>
        list_all after_barrier (post @ [Exit r])"
      using e pp by simp
    then show ?thesis by blast
  qed
  show ?thesis
    unfolding gather_inv_def
    using 0 1 2 3 4 5 6 7 8 9 10 11 12 by (intro conjI)
qed

lemma inv_step:
  assumes "gather_inv SIZE E c evs w" "gather_step SIZE w ev w'"
  shows "gather_inv SIZE E c (evs @ [ev]) w'"
  using assms(2,1)
proof (cases rule: gather_step.cases)
  case (send r m s')
  with assms(1) show ?thesis by (auto intro: inv_send)
next
  case (recv i src m s')
  with assms(1) show ?thesis by (auto intro: inv_recv)
next
  case (end_collect i)
  with assms(1) show ?thesis by (auto intro: inv_end_collect)
next
  case barrier
  with assms(1) show ?thesis by (auto intro: inv_barrier)
next
  case (merge s')
  with assms(1) show ?thesis by (auto intro: inv_merge)
next
  case (exit r)
  with assms(1) show ?thesis by (auto intro: inv_exit)
qed

lemma inv_run:
  assumes "0 < SIZE" "gather_run SIZE (gather_init SIZE E c) evs w"
  shows "gather_inv SIZE E c evs w"
  using assms(2)
proof (induction rule: gather_run.induct)
  case run_nil
  show ?case by (rule gather_inv_init [OF assms(1)])
next
  case (run_snoc evs w ev w')
  then show ?case by (simp only: inv_step)
qed

end
